theory Spec2Isabelle
  imports Main
begin

section \<open>Data model of \<open>tictactoe.py\<close>\<close>

text \<open>
  The board is a Python list of one-character strings: \<open>" "\<close> for an empty cell,
  \<open>"X"\<close> and \<open>"O"\<close> for the two symbols. Nothing in the program restricts the
  length of the list or the strings stored in it, so the model keeps both open.
\<close>

type_synonym board = "string list"

datatype error = IndexError

text \<open>
  Scores are the Python ints \<open>1\<close>, \<open>0\<close>, \<open>-1\<close> mixed with the floats
  \<open>-math.inf\<close> and \<open>math.inf\<close>; only comparisons, \<open>max\<close> and \<open>min\<close> are
  applied to them.
\<close>

datatype score = NegInf | Fin int | PosInf

instantiation score :: linorder
begin

fun less_eq_score :: "score \<Rightarrow> score \<Rightarrow> bool" where
  "less_eq_score NegInf _ = True"
| "less_eq_score (Fin _) NegInf = False"
| "less_eq_score (Fin i) (Fin j) = (i \<le> j)"
| "less_eq_score (Fin _) PosInf = True"
| "less_eq_score PosInf PosInf = True"
| "less_eq_score PosInf _ = False"

definition less_score :: "score \<Rightarrow> score \<Rightarrow> bool" where
  "less_score a b = (a \<le> b \<and> \<not> b \<le> a)"

instance
proof
  fix x y z :: score
  show "(x < y) = (x \<le> y \<and> \<not> y \<le> x)" by (simp add: less_score_def)
  show "x \<le> x" by (cases x) simp_all
  show "x \<le> y \<Longrightarrow> y \<le> z \<Longrightarrow> x \<le> z" by (cases x; cases y; cases z) simp_all
  show "x \<le> y \<Longrightarrow> y \<le> x \<Longrightarrow> x = y" by (cases x; cases y) simp_all
  show "x \<le> y \<or> y \<le> x" by (cases x; cases y) auto
qed

end

definition WIN_LINES :: "(nat \<times> nat \<times> nat) list" where
  "WIN_LINES = [(0, 1, 2), (3, 4, 5), (6, 7, 8),
                (0, 3, 6), (1, 4, 7), (2, 5, 8),
                (0, 4, 8), (2, 4, 6)]"

definition fresh_board :: board where
  "fresh_board = replicate 9 '' ''"

section \<open>Board operations\<close>

text \<open>Reading \<open>board[i]\<close> raises \<open>IndexError\<close> when \<open>i\<close> is out of range.\<close>

definition getitem :: "board \<Rightarrow> nat \<Rightarrow> error + string" where
  "getitem board i = (if i < length board then Inr (board ! i) else Inl IndexError)"

text \<open>
  The condition \<open>board[a] != " " and board[a] == board[b] == board[c]\<close>: the \<open>and\<close>
  and the chained comparison both short-circuit, so \<open>board[b]\<close> is read only when
  \<open>board[a]\<close> is not empty, and \<open>board[c]\<close> only when the first two cells agree.
\<close>

definition line_won :: "board \<Rightarrow> nat \<Rightarrow> nat \<Rightarrow> nat \<Rightarrow> error + bool" where
  "line_won board a b c =
     (case getitem board a of
        Inl e \<Rightarrow> Inl e
      | Inr va \<Rightarrow>
          if va = '' '' then Inr False
          else (case getitem board b of
                  Inl e \<Rightarrow> Inl e
                | Inr vb \<Rightarrow>
                    if va \<noteq> vb then Inr False
                    else (case getitem board c of
                            Inl e \<Rightarrow> Inl e
                          | Inr vc \<Rightarrow> Inr (vb = vc))))"

fun check_lines :: "board \<Rightarrow> (nat \<times> nat \<times> nat) list \<Rightarrow> error + string option" where
  "check_lines board [] =
     (if '' '' \<notin> set board then Inr (Some ''D'') else Inr None)"
| "check_lines board ((a, b, c) # rest) =
     (case line_won board a b c of
        Inl e \<Rightarrow> Inl e
      | Inr True \<Rightarrow> (case getitem board a of Inl e \<Rightarrow> Inl e | Inr va \<Rightarrow> Inr (Some va))
      | Inr False \<Rightarrow> check_lines board rest)"

definition check_winner :: "board \<Rightarrow> error + string option" where
  "check_winner board = check_lines board WIN_LINES"

definition available_moves :: "board \<Rightarrow> nat list" where
  "available_moves board = map fst (filter (\<lambda>(i, v). v = '' '') (enumerate 0 board))"

definition other :: "string \<Rightarrow> string" where
  "other player = (if player = ''X'' then ''O'' else ''X'')"

section \<open>The search\<close>

text \<open>
  \<open>minimax\<close> mutates the list it is given, so the model threads the board through every
  call and returns it next to the Python result \<open>(score, move)\<close>. The two \<open>for\<close>
  loops are \<open>max_loop\<close> and \<open>min_loop\<close>: their first argument is the rest of
  \<open>moves\<close>, and \<open>value\<close>, \<open>best_move\<close>, \<open>alpha\<close> and \<open>beta\<close> are the loop
  variables. An exception raised by a callee ends the caller as well. The recursion
  limit of the interpreter is not modelled: on a board of nine cells at most ten calls
  are nested.
\<close>

function minimax :: "board \<Rightarrow> string \<Rightarrow> string \<Rightarrow> score \<Rightarrow> score
                       \<Rightarrow> error + ((score \<times> nat option) \<times> board)"
  and max_loop :: "nat list \<Rightarrow> board \<Rightarrow> string \<Rightarrow> string \<Rightarrow> score \<Rightarrow> score
                       \<Rightarrow> score \<Rightarrow> nat option \<Rightarrow> error + ((score \<times> nat option) \<times> board)"
  and min_loop :: "nat list \<Rightarrow> board \<Rightarrow> string \<Rightarrow> string \<Rightarrow> score \<Rightarrow> score
                       \<Rightarrow> score \<Rightarrow> nat option \<Rightarrow> error + ((score \<times> nat option) \<times> board)"
  where
  "minimax board player maximizing_player alpha beta =
     (case check_winner board of
        Inl e \<Rightarrow> Inl e
      | Inr (Some winner) \<Rightarrow>
          if winner = ''D'' then Inr ((Fin 0, None), board)
          else Inr ((if winner = maximizing_player then Fin 1 else Fin (- 1), None), board)
      | Inr None \<Rightarrow>
          if player = maximizing_player
          then max_loop (available_moves board) board player maximizing_player
                        alpha beta NegInf None
          else min_loop (available_moves board) board player maximizing_player
                        alpha beta PosInf None)"
| "max_loop [] board player maximizing_player alpha beta value best_move =
     Inr ((value, best_move), board)"
| "max_loop (m # ms) board player maximizing_player alpha beta value best_move =
     (if length board \<le> m then Inl IndexError
      else (case minimax (board[m := player]) (other player) maximizing_player alpha beta of
              Inl e \<Rightarrow> Inl e
            | Inr ((score, _), board') \<Rightarrow>
                if length board' \<le> m then Inl IndexError
                else (let board'' = board'[m := '' ''];
                          value' = (if score > value then score else value);
                          best_move' = (if score > value then Some m else best_move);
                          alpha' = max alpha value'
                      in if alpha' \<ge> beta then Inr ((value', best_move'), board'')
                         else max_loop ms board'' player maximizing_player
                                       alpha' beta value' best_move')))"
| "min_loop [] board player maximizing_player alpha beta value best_move =
     Inr ((value, best_move), board)"
| "min_loop (m # ms) board player maximizing_player alpha beta value best_move =
     (if length board \<le> m then Inl IndexError
      else (case minimax (board[m := player]) (other player) maximizing_player alpha beta of
              Inl e \<Rightarrow> Inl e
            | Inr ((score, _), board') \<Rightarrow>
                if length board' \<le> m then Inl IndexError
                else (let board'' = board'[m := '' ''];
                          value' = (if score < value then score else value);
                          best_move' = (if score < value then Some m else best_move);
                          beta' = min beta value'
                      in if alpha \<ge> beta' then Inr ((value', best_move'), board'')
                         else min_loop ms board'' player maximizing_player
                                       alpha beta' value' best_move')))"
  by pat_completeness auto


text \<open>
  \<open>random.choice(seq)\<close> of the standard library raises \<open>IndexError\<close> on an empty
  sequence and otherwise returns \<open>seq[randbelow(len(seq))]\<close>. The generator is outside
  the program, so its draw is the parameter \<open>randbelow\<close>, which the library keeps
  below its argument.
\<close>

definition random_choice :: "(nat \<Rightarrow> nat) \<Rightarrow> nat list \<Rightarrow> error + nat" where
  "random_choice randbelow seq =
     (if seq = [] then Inl IndexError
      else if randbelow (length seq) < length seq then Inr (seq ! randbelow (length seq))
      else Inl IndexError)"

text \<open>The \<open>for\<close> loop of \<open>best_move_for_ai\<close>, with \<open>best_score\<close> and \<open>best_moves\<close>
  as loop variables.\<close>

fun best_moves_loop :: "nat list \<Rightarrow> board \<Rightarrow> string \<Rightarrow> score \<Rightarrow> nat list
                          \<Rightarrow> error + ((score \<times> nat list) \<times> board)" where
  "best_moves_loop [] board ai_symbol best_score best_moves =
     Inr ((best_score, best_moves), board)"
| "best_moves_loop (m # ms) board ai_symbol best_score best_moves =
     (if length board \<le> m then Inl IndexError
      else (case minimax (board[m := ai_symbol]) (other ai_symbol) ai_symbol NegInf PosInf of
              Inl e \<Rightarrow> Inl e
            | Inr ((score, _), board') \<Rightarrow>
                if length board' \<le> m then Inl IndexError
                else (let board'' = board'[m := '' '']
                      in if score > best_score
                         then best_moves_loop ms board'' ai_symbol score [m]
                         else if score = best_score
                         then best_moves_loop ms board'' ai_symbol best_score (best_moves @ [m])
                         else best_moves_loop ms board'' ai_symbol best_score best_moves)))"

definition best_move_for_ai :: "board \<Rightarrow> string \<Rightarrow> (nat \<Rightarrow> nat) \<Rightarrow> error + (nat \<times> board)" where
  "best_move_for_ai board ai_symbol randbelow =
     (case best_moves_loop (available_moves board) board ai_symbol NegInf [] of
        Inl e \<Rightarrow> Inl e
      | Inr ((_, best_moves), board') \<Rightarrow>
          (case random_choice randbelow best_moves of
             Inl e \<Rightarrow> Inl e
           | Inr m \<Rightarrow> Inr (m, board')))"

section \<open>Reading the board without failure\<close>

text \<open>
  On a board of at least nine cells no read of \<open>check_winner\<close> is out of range. There
  the function is \<open>winner_of\<close>: the first line of \<open>WIN_LINES\<close> whose three cells
  hold the same non-empty string decides, then the absence of an empty cell.
\<close>

definition line_full :: "board \<Rightarrow> nat \<times> nat \<times> nat \<Rightarrow> bool" where
  "line_full board l =
     (case l of (a, b, c) \<Rightarrow> board ! a \<noteq> '' '' \<and> board ! a = board ! b \<and> board ! b = board ! c)"

definition winner_of :: "board \<Rightarrow> string option" where
  "winner_of board =
     (case find (line_full board) WIN_LINES of
        Some (a, b, c) \<Rightarrow> Some (board ! a)
      | None \<Rightarrow> if '' '' \<notin> set board then Some ''D'' else None)"

text \<open>
  The boards of the game: nine cells, each empty or holding one of the two symbols. A line
  is filled with \<open>s\<close> when its three cells all hold \<open>s\<close>.
\<close>

definition valid_board :: "board \<Rightarrow> bool" where
  "valid_board board = (length board = 9 \<and> set board \<subseteq> {'' '', ''X'', ''O''})"

definition line_filled :: "board \<Rightarrow> nat \<times> nat \<times> nat \<Rightarrow> string \<Rightarrow> bool" where
  "line_filled board l s = (case l of (a, b, c) \<Rightarrow> board ! a = s \<and> board ! b = s \<and> board ! c = s)"

text \<open>The scores a finished game can have.\<close>

definition scores :: "score set" where
  "scores = {Fin (- 1), Fin 0, Fin 1}"

section \<open>Termination of the search\<close>

definition empties :: "board \<Rightarrow> nat" where
  "empties board = count_list board '' ''"

definition clear_cells :: "nat list \<Rightarrow> board \<Rightarrow> board" where
  "clear_cells ms board = fold (\<lambda>m b. b[m := '' '']) ms board"

text \<open>
  The measure of a call: three times the number of empty cells the call can still see
  (for a loop, those of the board once the cells of its remaining moves are cleared), with
  room for the one call in which a player \<open>" "\<close> writes an empty cell; the second
  component is the number of moves a loop still has to try.
\<close>

definition call_weight :: "(board \<times> string \<times> string \<times> score \<times> score) +
     (nat list \<times> board \<times> string \<times> string \<times> score \<times> score \<times> score \<times> nat option) +
     (nat list \<times> board \<times> string \<times> string \<times> score \<times> score \<times> score \<times> nat option) \<Rightarrow> nat" where
  "call_weight x =
     (case x of
        Inl (b, p, _) \<Rightarrow> 3 * empties b + (if p = '' '' then 2 else 0) + 1
      | Inr (Inl (ms, b, p, _)) \<Rightarrow> 3 * empties (clear_cells ms b) + (if p = '' '' then 2 else 0)
      | Inr (Inr (ms, b, p, _)) \<Rightarrow> 3 * empties (clear_cells ms b) + (if p = '' '' then 2 else 0))"

definition call_rest :: "(board \<times> string \<times> string \<times> score \<times> score) +
     (nat list \<times> board \<times> string \<times> string \<times> score \<times> score \<times> score \<times> nat option) +
     (nat list \<times> board \<times> string \<times> string \<times> score \<times> score \<times> score \<times> nat option) \<Rightarrow> nat" where
  "call_rest x =
     (case x of Inl _ \<Rightarrow> 0 | Inr (Inl (ms, _)) \<Rightarrow> length ms | Inr (Inr (ms, _)) \<Rightarrow> length ms)"

text \<open>
  The search run with a bound on nesting: \<open>minimax_within d\<close> is \<open>minimax\<close> allowed
  at most \<open>d\<close> calls of itself nested in one another, this one included, and it is
  \<open>None\<close> where one more would be needed. It measures the depth of the recursion; the
  program has no such bound.
\<close>

function minimax_within :: "nat \<Rightarrow> board \<Rightarrow> string \<Rightarrow> string \<Rightarrow> score \<Rightarrow> score
                       \<Rightarrow> (error + ((score \<times> nat option) \<times> board)) option"
  and max_loop_within :: "nat \<Rightarrow> nat list \<Rightarrow> board \<Rightarrow> string \<Rightarrow> string \<Rightarrow> score \<Rightarrow> score
                       \<Rightarrow> score \<Rightarrow> nat option \<Rightarrow> (error + ((score \<times> nat option) \<times> board)) option"
  and min_loop_within :: "nat \<Rightarrow> nat list \<Rightarrow> board \<Rightarrow> string \<Rightarrow> string \<Rightarrow> score \<Rightarrow> score
                       \<Rightarrow> score \<Rightarrow> nat option \<Rightarrow> (error + ((score \<times> nat option) \<times> board)) option"
  where
  "minimax_within 0 board player maximizing_player alpha beta = None"
| "minimax_within (Suc d) board player maximizing_player alpha beta =
     (case check_winner board of
        Inl e \<Rightarrow> Some (Inl e)
      | Inr (Some winner) \<Rightarrow>
          if winner = ''D'' then Some (Inr ((Fin 0, None), board))
          else Some (Inr ((if winner = maximizing_player then Fin 1 else Fin (- 1), None), board))
      | Inr None \<Rightarrow>
          if player = maximizing_player
          then max_loop_within d (available_moves board) board player maximizing_player
                               alpha beta NegInf None
          else min_loop_within d (available_moves board) board player maximizing_player
                               alpha beta PosInf None)"
| "max_loop_within d [] board player maximizing_player alpha beta value best_move =
     Some (Inr ((value, best_move), board))"
| "max_loop_within d (m # ms) board player maximizing_player alpha beta value best_move =
     (if length board \<le> m then Some (Inl IndexError)
      else (case minimax_within d (board[m := player]) (other player) maximizing_player alpha beta of
              None \<Rightarrow> None
            | Some (Inl e) \<Rightarrow> Some (Inl e)
            | Some (Inr ((score, _), board')) \<Rightarrow>
                if length board' \<le> m then Some (Inl IndexError)
                else (let board'' = board'[m := '' ''];
                          value' = (if score > value then score else value);
                          best_move' = (if score > value then Some m else best_move);
                          alpha' = max alpha value'
                      in if alpha' \<ge> beta then Some (Inr ((value', best_move'), board''))
                         else max_loop_within d ms board'' player maximizing_player
                                              alpha' beta value' best_move')))"
| "min_loop_within d [] board player maximizing_player alpha beta value best_move =
     Some (Inr ((value, best_move), board))"
| "min_loop_within d (m # ms) board player maximizing_player alpha beta value best_move =
     (if length board \<le> m then Some (Inl IndexError)
      else (case minimax_within d (board[m := player]) (other player) maximizing_player alpha beta of
              None \<Rightarrow> None
            | Some (Inl e) \<Rightarrow> Some (Inl e)
            | Some (Inr ((score, _), board')) \<Rightarrow>
                if length board' \<le> m then Some (Inl IndexError)
                else (let board'' = board'[m := '' ''];
                          value' = (if score < value then score else value);
                          best_move' = (if score < value then Some m else best_move);
                          beta' = min beta value'
                      in if alpha \<ge> beta' then Some (Inr ((value', best_move'), board''))
                         else min_loop_within d ms board'' player maximizing_player
                                              alpha beta' value' best_move')))"
  by pat_completeness auto

definition nesting_left :: "(nat \<times> board \<times> string \<times> string \<times> score \<times> score) +
     (nat \<times> nat list \<times> board \<times> string \<times> string \<times> score \<times> score \<times> score \<times> nat option) +
     (nat \<times> nat list \<times> board \<times> string \<times> string \<times> score \<times> score \<times> score \<times> nat option) \<Rightarrow> nat" where
  "nesting_left x =
     (case x of Inl (d, _) \<Rightarrow> 2 * d | Inr (Inl (d, _)) \<Rightarrow> 2 * d + 1 | Inr (Inr (d, _)) \<Rightarrow> 2 * d + 1)"

definition moves_left :: "(nat \<times> board \<times> string \<times> string \<times> score \<times> score) +
     (nat \<times> nat list \<times> board \<times> string \<times> string \<times> score \<times> score \<times> score \<times> nat option) +
     (nat \<times> nat list \<times> board \<times> string \<times> string \<times> score \<times> score \<times> score \<times> nat option) \<Rightarrow> nat" where
  "moves_left x =
     (case x of Inl _ \<Rightarrow> 0 | Inr (Inl (_, ms, _)) \<Rightarrow> length ms | Inr (Inr (_, ms, _)) \<Rightarrow> length ms)"

section \<open>The value of a position\<close>

text \<open>
  The game-theoretic value of a board for the maximizing symbol, by exhaustive minimax
  without pruning and without mutation: the score of a finished game, else the largest
  value among the successor boards when the maximizing symbol moves, the smallest when
  the opponent does. It is the yardstick for the search, not part of the program.
\<close>

function game_value :: "board \<Rightarrow> string \<Rightarrow> string \<Rightarrow> score" where
  "game_value board player maximizing_player =
     (case winner_of board of
        Some winner \<Rightarrow>
          if winner = ''D'' then Fin 0
          else if winner = maximizing_player then Fin 1 else Fin (- 1)
      | None \<Rightarrow>
          if player = maximizing_player
          then foldr max (map (\<lambda>m. game_value (board[m := player]) (other player) maximizing_player)
                              (available_moves board)) NegInf
          else foldr min (map (\<lambda>m. game_value (board[m := player]) (other player) maximizing_player)
                              (available_moves board)) PosInf)"
  by pat_completeness auto

definition value_weight :: "board \<times> string \<times> string \<Rightarrow> nat" where
  "value_weight x = (case x of (b, p, _) \<Rightarrow> 2 * empties b + (if p = '' '' then 1 else 0))"

text \<open>
  What a search with window \<open>(al, be)\<close> promises about its result \<open>r\<close> and the true
  value \<open>v\<close>: at or below \<open>al\<close> the result is an upper bound of the value, at or
  above \<open>be\<close> a lower bound, and strictly inside the window it is the value.
\<close>

definition bounded_by :: "score \<Rightarrow> score \<Rightarrow> score \<Rightarrow> score \<Rightarrow> bool" where
  "bounded_by r v al be =
     ((r \<le> al \<longrightarrow> v \<le> r) \<and> (al < r \<and> r < be \<longrightarrow> r = v) \<and> (be \<le> r \<longrightarrow> r \<le> v))"

text \<open>
  The score the loop of \<open>best_move_for_ai\<close> obtains for a move, and the candidate list
  \<open>best_moves\<close> the loop ends with.
\<close>

definition move_score :: "board \<Rightarrow> string \<Rightarrow> nat \<Rightarrow> score" where
  "move_score board ai_symbol m =
     (case minimax (board[m := ai_symbol]) (other ai_symbol) ai_symbol NegInf PosInf of
        Inr ((score, _), _) \<Rightarrow> score
      | Inl _ \<Rightarrow> NegInf)"

definition best_moves :: "board \<Rightarrow> string \<Rightarrow> nat list" where
  "best_moves board ai_symbol =
     (case best_moves_loop (available_moves board) board ai_symbol NegInf [] of
        Inr ((_, moves), _) \<Rightarrow> moves
      | Inl _ \<Rightarrow> [])"

text \<open>Scores seen from the other side.\<close>

fun negate :: "score \<Rightarrow> score" where
  "negate NegInf = PosInf"
| "negate (Fin i) = Fin (- i)"
| "negate PosInf = NegInf"


section \<open>Strategies as certificates\<close>

text \<open>
  A plan is a strategy for one side, written as a tree: \<open>Pick m t\<close> plays cell \<open>m\<close>
  where that side moves, \<open>Each ts\<close> holds one plan for every move the other side has,
  in the order of \<open>available_moves\<close>, and \<open>Over\<close> stands where the game has ended.
  \<open>at_least v t\<close> checks that plan \<open>t\<close> keeps every final score of the maximizing
  symbol at or above \<open>v\<close>; \<open>at_most v t\<close> checks that a plan of its opponent keeps
  every final score at or below \<open>v\<close>.
\<close>

datatype plan = Over | Pick nat plan | Each "plan list"

definition final_score :: "string \<Rightarrow> string \<Rightarrow> score" where
  "final_score winner maximizing_player =
     (if winner = ''D'' then Fin 0 else if winner = maximizing_player then Fin 1 else Fin (- 1))"

fun at_least :: "score \<Rightarrow> plan \<Rightarrow> board \<Rightarrow> string \<Rightarrow> string \<Rightarrow> bool"
  and at_least_each :: "score \<Rightarrow> plan list \<Rightarrow> nat list \<Rightarrow> board \<Rightarrow> string \<Rightarrow> string \<Rightarrow> bool"
  where
  "at_least v Over b p mp =
     (case winner_of b of Some w \<Rightarrow> v \<le> final_score w mp | None \<Rightarrow> False)"
| "at_least v (Pick m t) b p mp =
     (case winner_of b of
        Some w \<Rightarrow> v \<le> final_score w mp
      | None \<Rightarrow> p = mp \<and> m \<in> set (available_moves b) \<and> at_least v t (b[m := p]) (other p) mp)"
| "at_least v (Each ts) b p mp =
     (case winner_of b of
        Some w \<Rightarrow> v \<le> final_score w mp
      | None \<Rightarrow> p \<noteq> mp \<and> at_least_each v ts (available_moves b) b p mp)"
| "at_least_each v [] [] b p mp = True"
| "at_least_each v (t # ts) (m # ms) b p mp =
     (at_least v t (b[m := p]) (other p) mp \<and> at_least_each v ts ms b p mp)"
| "at_least_each v [] (m # ms) b p mp = False"
| "at_least_each v (t # ts) [] b p mp = False"

fun at_most :: "score \<Rightarrow> plan \<Rightarrow> board \<Rightarrow> string \<Rightarrow> string \<Rightarrow> bool"
  and at_most_each :: "score \<Rightarrow> plan list \<Rightarrow> nat list \<Rightarrow> board \<Rightarrow> string \<Rightarrow> string \<Rightarrow> bool"
  where
  "at_most v Over b p mp =
     (case winner_of b of Some w \<Rightarrow> final_score w mp \<le> v | None \<Rightarrow> False)"
| "at_most v (Pick m t) b p mp =
     (case winner_of b of
        Some w \<Rightarrow> final_score w mp \<le> v
      | None \<Rightarrow> p \<noteq> mp \<and> m \<in> set (available_moves b) \<and> at_most v t (b[m := p]) (other p) mp)"
| "at_most v (Each ts) b p mp =
     (case winner_of b of
        Some w \<Rightarrow> final_score w mp \<le> v
      | None \<Rightarrow> p = mp \<and> at_most_each v ts (available_moves b) b p mp)"
| "at_most_each v [] [] b p mp = True"
| "at_most_each v (t # ts) (m # ms) b p mp =
     (at_most v t (b[m := p]) (other p) mp \<and> at_most_each v ts ms b p mp)"
| "at_most_each v [] (m # ms) b p mp = False"
| "at_most_each v (t # ts) [] b p mp = False"

text \<open>
  Plans for the empty board, one per opening move of \<open>X\<close>: \<open>hold_plans ! m\<close> is a
  plan by which \<open>X\<close>, having opened at \<open>m\<close>, does not lose, and \<open>reply_plans ! m\<close>
  a plan by which \<open>O\<close> does not lose against that opening.
\<close>

definition hold_plans :: "plan list" where
  "hold_plans =
     [Each [Pick 3 (Each [Pick 6 Over, Pick 6 Over, Pick 6 Over, Pick 4 (Each [Pick 5 Over, Pick 8
      Over, Pick 5 Over, Pick 5 Over]), Pick 6 Over, Pick 6 Over]), Pick 3 (Each [Pick 6 Over, Pick 6
      Over, Pick 6 Over, Pick 4 (Each [Pick 5 Over, Pick 8 Over, Pick 5 Over, Pick 5 Over]), Pick 6
      Over, Pick 6 Over]), Pick 1 (Each [Pick 4 (Each [Pick 7 Over, Pick 7 Over, Pick 8 Over, Pick 7
      Over]), Pick 2 Over, Pick 2 Over, Pick 2 Over, Pick 2 Over, Pick 2 Over]), Pick 1 (Each [Pick 6
      (Each [Pick 5 (Each [Pick 8 Over, Pick 7 Over]), Pick 3 Over, Pick 3 Over, Pick 3 Over]), Pick 2
      Over, Pick 2 Over, Pick 2 Over, Pick 2 Over, Pick 2 Over]), Pick 2 (Each [Pick 4 (Each [Pick 6
      Over, Pick 8 Over, Pick 6 Over, Pick 6 Over]), Pick 1 Over, Pick 1 Over, Pick 1 Over, Pick 1
      Over, Pick 1 Over]), Pick 1 (Each [Pick 4 (Each [Pick 7 Over, Pick 7 Over, Pick 8 Over, Pick 7
      Over]), Pick 2 Over, Pick 2 Over, Pick 2 Over, Pick 2 Over, Pick 2 Over]), Pick 2 (Each [Pick 4
      (Each [Pick 6 Over, Pick 6 Over, Pick 8 Over, Pick 6 Over]), Pick 1 Over, Pick 1 Over, Pick 1
      Over, Pick 1 Over, Pick 1 Over]), Pick 2 (Each [Pick 6 (Each [Pick 4 Over, Pick 3 Over, Pick 3
      Over, Pick 3 Over]), Pick 1 Over, Pick 1 Over, Pick 1 Over, Pick 1 Over, Pick 1 Over])],
      Each [Pick 4 (Each [Pick 7 Over, Pick 7 Over, Pick 7 Over, Pick 7 Over, Pick 3 (Each [Pick 5
      Over, Pick 2 (Each [Pick 8 Over, Pick 6 Over]), Pick 5 Over, Pick 5 Over]), Pick 7 Over]), Pick
      4 (Each [Pick 7 Over, Pick 7 Over, Pick 7 Over, Pick 7 Over, Pick 3 (Each [Pick 5 Over, Pick 8
      (Each [Pick 6 Over, Pick 0 Over]), Pick 5 Over, Pick 5 Over]), Pick 7 Over]), Pick 0 (Each [Pick
      4 (Each [Pick 7 Over, Pick 7 Over, Pick 8 Over, Pick 7 Over]), Pick 2 Over, Pick 2 Over, Pick 2
      Over, Pick 2 Over, Pick 2 Over]), Pick 0 (Each [Pick 6 (Each [Pick 5 (Each [Pick 8 Over, Pick 7
      Over]), Pick 3 Over, Pick 3 Over, Pick 3 Over]), Pick 2 Over, Pick 2 Over, Pick 2 Over, Pick 2
      Over, Pick 2 Over]), Pick 2 (Each [Pick 4 (Each [Pick 6 Over, Pick 7 Over, Pick 6 Over, Pick 6
      Over]), Pick 0 Over, Pick 0 Over, Pick 0 Over, Pick 0 Over, Pick 0 Over]), Pick 0 (Each [Pick 4
      (Each [Pick 7 Over, Pick 7 Over, Pick 8 Over, Pick 7 Over]), Pick 2 Over, Pick 2 Over, Pick 2
      Over, Pick 2 Over, Pick 2 Over]), Pick 0 (Each [Pick 6 (Each [Pick 4 (Each [Pick 8 Over, Pick 5
      Over]), Pick 3 Over, Pick 3 Over, Pick 3 Over]), Pick 2 Over, Pick 2 Over, Pick 2 Over, Pick 2
      Over, Pick 2 Over]), Pick 2 (Each [Pick 4 (Each [Pick 6 Over, Pick 6 Over, Pick 7 Over, Pick 6
      Over]), Pick 0 Over, Pick 0 Over, Pick 0 Over, Pick 0 Over, Pick 0 Over])],
      Each [Pick 5 (Each [Pick 8 Over, Pick 8 Over, Pick 8 Over, Pick 8 Over, Pick 8 Over, Pick 4
      (Each [Pick 3 Over, Pick 6 Over, Pick 3 Over, Pick 3 Over])]), Pick 4 (Each [Pick 6 Over, Pick 6
      Over, Pick 6 Over, Pick 5 (Each [Pick 3 Over, Pick 8 Over, Pick 3 Over, Pick 3 Over]), Pick 6
      Over, Pick 6 Over]), Pick 0 (Each [Pick 4 (Each [Pick 6 Over, Pick 8 Over, Pick 6 Over, Pick 6
      Over]), Pick 1 Over, Pick 1 Over, Pick 1 Over, Pick 1 Over, Pick 1 Over]), Pick 1 (Each [Pick 8
      (Each [Pick 5 Over, Pick 3 (Each [Pick 7 Over, Pick 6 Over]), Pick 5 Over, Pick 5 Over]), Pick 0
      Over, Pick 0 Over, Pick 0 Over, Pick 0 Over, Pick 0 Over]), Pick 0 (Each [Pick 4 (Each [Pick 6
      Over, Pick 8 Over, Pick 6 Over, Pick 6 Over]), Pick 1 Over, Pick 1 Over, Pick 1 Over, Pick 1
      Over, Pick 1 Over]), Pick 0 (Each [Pick 8 (Each [Pick 4 Over, Pick 5 Over, Pick 4 Over, Pick 4
      Over]), Pick 1 Over, Pick 1 Over, Pick 1 Over, Pick 1 Over, Pick 1 Over]), Pick 0 (Each [Pick 4
      (Each [Pick 6 Over, Pick 6 Over, Pick 8 Over, Pick 6 Over]), Pick 1 Over, Pick 1 Over, Pick 1
      Over, Pick 1 Over, Pick 1 Over]), Pick 0 (Each [Pick 6 (Each [Pick 4 Over, Pick 3 Over, Pick 3
      Over, Pick 3 Over]), Pick 1 Over, Pick 1 Over, Pick 1 Over, Pick 1 Over, Pick 1 Over])],
      Each [Pick 4 (Each [Pick 5 Over, Pick 5 Over, Pick 1 (Each [Pick 7 Over, Pick 7 Over, Pick 2
      (Each [Pick 8 Over, Pick 6 Over]), Pick 7 Over]), Pick 5 Over, Pick 5 Over, Pick 5 Over]), Pick
      0 (Each [Pick 6 Over, Pick 6 Over, Pick 6 Over, Pick 4 (Each [Pick 5 Over, Pick 8 Over, Pick 5
      Over, Pick 5 Over]), Pick 6 Over, Pick 6 Over]), Pick 0 (Each [Pick 6 Over, Pick 6 Over, Pick 6
      Over, Pick 4 (Each [Pick 5 Over, Pick 8 Over, Pick 5 Over, Pick 5 Over]), Pick 6 Over, Pick 6
      Over]), Pick 0 (Each [Pick 6 Over, Pick 6 Over, Pick 6 Over, Pick 2 (Each [Pick 7 (Each [Pick 8
      Over, Pick 5 Over]), Pick 1 Over, Pick 1 Over, Pick 1 Over]), Pick 6 Over, Pick 6 Over]), Pick 0
      (Each [Pick 6 Over, Pick 6 Over, Pick 6 Over, Pick 2 (Each [Pick 4 (Each [Pick 8 Over, Pick 7
      Over]), Pick 1 Over, Pick 1 Over, Pick 1 Over]), Pick 6 Over, Pick 6 Over]), Pick 4 (Each [Pick
      5 Over, Pick 5 Over, Pick 5 Over, Pick 1 (Each [Pick 7 Over, Pick 7 Over, Pick 8 (Each [Pick 2
      Over, Pick 0 Over]), Pick 7 Over]), Pick 5 Over, Pick 5 Over]), Pick 4 (Each [Pick 5 Over, Pick
      5 Over, Pick 5 Over, Pick 0 (Each [Pick 6 Over, Pick 6 Over, Pick 8 Over, Pick 6 Over]), Pick 5
      Over, Pick 5 Over]), Pick 6 (Each [Pick 4 (Each [Pick 2 Over, Pick 5 Over, Pick 2 Over, Pick 2
      Over]), Pick 0 Over, Pick 0 Over, Pick 0 Over, Pick 0 Over, Pick 0 Over])],
      Each [Pick 1 (Each [Pick 7 Over, Pick 7 Over, Pick 7 Over, Pick 7 Over, Pick 3 (Each [Pick 5
      Over, Pick 2 (Each [Pick 8 Over, Pick 6 Over]), Pick 5 Over, Pick 5 Over]), Pick 7 Over]), Pick
      0 (Each [Pick 8 Over, Pick 8 Over, Pick 8 Over, Pick 8 Over, Pick 8 Over, Pick 3 (Each [Pick 5
      Over, Pick 6 Over, Pick 5 Over, Pick 5 Over])]), Pick 0 (Each [Pick 8 Over, Pick 8 Over, Pick 8
      Over, Pick 8 Over, Pick 8 Over, Pick 5 (Each [Pick 3 Over, Pick 1 (Each [Pick 7 Over, Pick 6
      Over]), Pick 3 Over, Pick 3 Over])]), Pick 0 (Each [Pick 8 Over, Pick 8 Over, Pick 8 Over, Pick
      8 Over, Pick 8 Over, Pick 1 (Each [Pick 7 Over, Pick 2 Over, Pick 2 Over, Pick 2 Over])]), Pick
      0 (Each [Pick 8 Over, Pick 8 Over, Pick 8 Over, Pick 8 Over, Pick 8 Over, Pick 2 (Each [Pick 6
      Over, Pick 1 Over, Pick 1 Over, Pick 1 Over])]), Pick 0 (Each [Pick 8 Over, Pick 8 Over, Pick 8
      Over, Pick 8 Over, Pick 8 Over, Pick 7 (Each [Pick 2 (Each [Pick 5 Over, Pick 3 Over]), Pick 1
      Over, Pick 1 Over, Pick 1 Over])]), Pick 0 (Each [Pick 8 Over, Pick 8 Over, Pick 8 Over, Pick 8
      Over, Pick 8 Over, Pick 6 (Each [Pick 2 Over, Pick 3 Over, Pick 2 Over, Pick 2 Over])]), Pick 1
      (Each [Pick 7 Over, Pick 7 Over, Pick 7 Over, Pick 7 Over, Pick 7 Over, Pick 6 (Each [Pick 2
      Over, Pick 5 (Each [Pick 3 Over, Pick 0 Over]), Pick 2 Over, Pick 2 Over])])],
      Each [Pick 2 (Each [Pick 8 Over, Pick 8 Over, Pick 8 Over, Pick 8 Over, Pick 8 Over, Pick 4
      (Each [Pick 3 Over, Pick 6 Over, Pick 3 Over, Pick 3 Over])]), Pick 2 (Each [Pick 8 Over, Pick 8
      Over, Pick 8 Over, Pick 8 Over, Pick 8 Over, Pick 4 (Each [Pick 3 Over, Pick 6 Over, Pick 3
      Over, Pick 3 Over])]), Pick 4 (Each [Pick 3 Over, Pick 3 Over, Pick 0 (Each [Pick 8 Over, Pick 8
      Over, Pick 8 Over, Pick 1 (Each [Pick 7 Over, Pick 6 Over])]), Pick 3 Over, Pick 3 Over, Pick 3
      Over]), Pick 2 (Each [Pick 8 Over, Pick 8 Over, Pick 8 Over, Pick 8 Over, Pick 8 Over, Pick 0
      (Each [Pick 4 (Each [Pick 7 Over, Pick 6 Over]), Pick 1 Over, Pick 1 Over, Pick 1 Over])]), Pick
      2 (Each [Pick 8 Over, Pick 8 Over, Pick 8 Over, Pick 8 Over, Pick 8 Over, Pick 0 (Each [Pick 7
      (Each [Pick 6 Over, Pick 3 Over]), Pick 1 Over, Pick 1 Over, Pick 1 Over])]), Pick 8 (Each [Pick
      2 Over, Pick 2 Over, Pick 4 (Each [Pick 3 Over, Pick 0 Over, Pick 0 Over, Pick 0 Over]), Pick 2
      Over, Pick 2 Over, Pick 2 Over]), Pick 4 (Each [Pick 3 Over, Pick 3 Over, Pick 3 Over, Pick 2
      (Each [Pick 6 Over, Pick 6 Over, Pick 8 Over, Pick 6 Over]), Pick 3 Over, Pick 3 Over]), Pick 4
      (Each [Pick 3 Over, Pick 3 Over, Pick 3 Over, Pick 1 (Each [Pick 7 Over, Pick 7 Over, Pick 7
      Over, Pick 6 (Each [Pick 2 Over, Pick 0 Over])]), Pick 3 Over, Pick 3 Over])],
      Each [Pick 2 (Each [Pick 4 Over, Pick 4 Over, Pick 8 (Each [Pick 5 Over, Pick 5 Over, Pick 7
      Over, Pick 5 Over]), Pick 4 Over, Pick 4 Over, Pick 4 Over]), Pick 0 (Each [Pick 3 Over, Pick 4
      (Each [Pick 8 Over, Pick 2 Over, Pick 2 Over, Pick 2 Over]), Pick 3 Over, Pick 3 Over, Pick 3
      Over, Pick 3 Over]), Pick 0 (Each [Pick 3 Over, Pick 8 (Each [Pick 4 Over, Pick 7 Over, Pick 4
      Over, Pick 4 Over]), Pick 3 Over, Pick 3 Over, Pick 3 Over, Pick 3 Over]), Pick 4 (Each [Pick 2
      Over, Pick 2 Over, Pick 7 (Each [Pick 1 Over, Pick 8 Over, Pick 1 Over, Pick 1 Over]), Pick 2
      Over, Pick 2 Over, Pick 2 Over]), Pick 3 (Each [Pick 8 (Each [Pick 7 Over, Pick 7 Over, Pick 7
      Over, Pick 1 (Each [Pick 5 Over, Pick 2 Over])]), Pick 0 Over, Pick 0 Over, Pick 0 Over, Pick 0
      Over, Pick 0 Over]), Pick 0 (Each [Pick 3 Over, Pick 3 Over, Pick 4 (Each [Pick 2 Over, Pick 8
      Over, Pick 2 Over, Pick 2 Over]), Pick 3 Over, Pick 3 Over, Pick 3 Over]), Pick 0 (Each [Pick 3
      Over, Pick 3 Over, Pick 2 (Each [Pick 4 Over, Pick 1 Over, Pick 1 Over, Pick 1 Over]), Pick 3
      Over, Pick 3 Over, Pick 3 Over]), Pick 0 (Each [Pick 3 Over, Pick 3 Over, Pick 2 (Each [Pick 4
      Over, Pick 1 Over, Pick 1 Over, Pick 1 Over]), Pick 3 Over, Pick 3 Over, Pick 3 Over])],
      Each [Pick 6 (Each [Pick 8 Over, Pick 8 Over, Pick 8 Over, Pick 8 Over, Pick 8 Over, Pick 4
      (Each [Pick 2 Over, Pick 1 Over, Pick 1 Over, Pick 1 Over])]), Pick 6 (Each [Pick 8 Over, Pick 8
      Over, Pick 8 Over, Pick 8 Over, Pick 8 Over, Pick 0 (Each [Pick 3 Over, Pick 2 (Each [Pick 5
      Over, Pick 4 Over]), Pick 3 Over, Pick 3 Over])]), Pick 8 (Each [Pick 6 Over, Pick 6 Over, Pick
      6 Over, Pick 6 Over, Pick 6 Over, Pick 4 (Each [Pick 1 Over, Pick 0 Over, Pick 0 Over, Pick 0
      Over])]), Pick 4 (Each [Pick 1 Over, Pick 6 (Each [Pick 2 Over, Pick 8 Over, Pick 2 Over, Pick 2
      Over]), Pick 1 Over, Pick 1 Over, Pick 1 Over, Pick 1 Over]), Pick 6 (Each [Pick 8 Over, Pick 8
      Over, Pick 8 Over, Pick 8 Over, Pick 8 Over, Pick 0 (Each [Pick 3 Over, Pick 3 Over, Pick 5
      (Each [Pick 2 Over, Pick 1 Over]), Pick 3 Over])]), Pick 4 (Each [Pick 1 Over, Pick 6 (Each
      [Pick 2 Over, Pick 8 Over, Pick 2 Over, Pick 2 Over]), Pick 1 Over, Pick 1 Over, Pick 1 Over,
      Pick 1 Over]), Pick 4 (Each [Pick 1 Over, Pick 0 (Each [Pick 8 Over, Pick 8 Over, Pick 8 Over,
      Pick 2 (Each [Pick 5 Over, Pick 3 Over])]), Pick 1 Over, Pick 1 Over, Pick 1 Over, Pick 1
      Over]), Pick 4 (Each [Pick 1 Over, Pick 2 (Each [Pick 6 Over, Pick 6 Over, Pick 6 Over, Pick 0
      (Each [Pick 5 Over, Pick 3 Over])]), Pick 1 Over, Pick 1 Over, Pick 1 Over, Pick 1 Over])],
      Each [Pick 2 (Each [Pick 5 Over, Pick 5 Over, Pick 5 Over, Pick 6 (Each [Pick 4 Over, Pick 4
      Over, Pick 7 Over, Pick 4 Over]), Pick 5 Over, Pick 5 Over]), Pick 2 (Each [Pick 5 Over, Pick 5
      Over, Pick 5 Over, Pick 4 (Each [Pick 6 Over, Pick 0 Over, Pick 0 Over, Pick 0 Over]), Pick 5
      Over, Pick 5 Over]), Pick 0 (Each [Pick 4 Over, Pick 4 Over, Pick 6 (Each [Pick 3 Over, Pick 7
      Over, Pick 3 Over, Pick 3 Over]), Pick 4 Over, Pick 4 Over, Pick 4 Over]), Pick 2 (Each [Pick 5
      Over, Pick 5 Over, Pick 5 Over, Pick 4 (Each [Pick 6 Over, Pick 0 Over, Pick 0 Over, Pick 0
      Over]), Pick 5 Over, Pick 5 Over]), Pick 5 (Each [Pick 2 Over, Pick 2 Over, Pick 6 (Each [Pick 7
      Over, Pick 7 Over, Pick 7 Over, Pick 1 (Each [Pick 3 Over, Pick 0 Over])]), Pick 2 Over, Pick 2
      Over, Pick 2 Over]), Pick 4 (Each [Pick 6 (Each [Pick 2 Over, Pick 7 Over, Pick 2 Over, Pick 2
      Over]), Pick 0 Over, Pick 0 Over, Pick 0 Over, Pick 0 Over, Pick 0 Over]), Pick 0 (Each [Pick 4
      Over, Pick 4 Over, Pick 4 Over, Pick 2 (Each [Pick 5 Over, Pick 1 Over, Pick 1 Over, Pick 1
      Over]), Pick 4 Over, Pick 4 Over]), Pick 2 (Each [Pick 5 Over, Pick 5 Over, Pick 5 Over, Pick 5
      Over, Pick 0 (Each [Pick 4 Over, Pick 1 Over, Pick 1 Over, Pick 1 Over]), Pick 5 Over])]]"

definition reply_plans :: "plan list" where
  "reply_plans =
     [Pick 4 (Each [Pick 2 (Each [Pick 6 Over, Pick 6 Over, Pick 3 (Each [Pick 7 (Each [Over]), Pick 5
      Over, Pick 5 Over]), Pick 6 Over, Pick 6 Over]), Pick 1 (Each [Pick 7 Over, Pick 7 Over, Pick 7
      Over, Pick 3 (Each [Pick 8 (Each [Over]), Pick 5 Over, Pick 5 Over]), Pick 7 Over]), Pick 6
      (Each [Pick 2 Over, Pick 1 (Each [Pick 7 Over, Pick 5 (Each [Over]), Pick 7 Over]), Pick 2 Over,
      Pick 2 Over, Pick 2 Over]), Pick 1 (Each [Pick 7 Over, Pick 7 Over, Pick 7 Over, Pick 6 (Each
      [Pick 8 (Each [Over]), Pick 2 Over, Pick 2 Over]), Pick 7 Over]), Pick 3 (Each [Pick 5 Over,
      Pick 5 Over, Pick 1 (Each [Pick 7 Over, Pick 8 (Each [Over]), Pick 7 Over]), Pick 5 Over, Pick 5
      Over]), Pick 3 (Each [Pick 5 Over, Pick 5 Over, Pick 2 (Each [Pick 6 Over, Pick 8 (Each [Over]),
      Pick 6 Over]), Pick 5 Over, Pick 5 Over]), Pick 1 (Each [Pick 7 Over, Pick 7 Over, Pick 7 Over,
      Pick 7 Over, Pick 6 (Each [Pick 5 (Each [Over]), Pick 2 Over, Pick 2 Over])])]),
      Pick 4 (Each [Pick 2 (Each [Pick 6 Over, Pick 6 Over, Pick 3 (Each [Pick 7 (Each [Over]), Pick 5
      Over, Pick 5 Over]), Pick 6 Over, Pick 6 Over]), Pick 0 (Each [Pick 8 Over, Pick 8 Over, Pick 8
      Over, Pick 8 Over, Pick 5 (Each [Pick 6 (Each [Over]), Pick 3 Over, Pick 3 Over])]), Pick 0
      (Each [Pick 8 Over, Pick 8 Over, Pick 8 Over, Pick 8 Over, Pick 2 (Each [Pick 6 Over, Pick 7
      (Each [Over]), Pick 6 Over])]), Pick 0 (Each [Pick 8 Over, Pick 8 Over, Pick 8 Over, Pick 8
      Over, Pick 2 (Each [Pick 6 Over, Pick 7 (Each [Over]), Pick 6 Over])]), Pick 3 (Each [Pick 5
      Over, Pick 5 Over, Pick 8 (Each [Pick 2 (Each [Over]), Pick 0 Over, Pick 0 Over]), Pick 5 Over,
      Pick 5 Over]), Pick 0 (Each [Pick 8 Over, Pick 8 Over, Pick 8 Over, Pick 8 Over, Pick 6 (Each
      [Pick 3 Over, Pick 2 Over, Pick 2 Over])]), Pick 3 (Each [Pick 5 Over, Pick 5 Over, Pick 2 (Each
      [Pick 6 Over, Pick 7 (Each [Over]), Pick 6 Over]), Pick 5 Over, Pick 5 Over])]),
      Pick 4 (Each [Pick 1 (Each [Pick 7 Over, Pick 7 Over, Pick 7 Over, Pick 3 (Each [Pick 8 (Each
      [Over]), Pick 5 Over, Pick 5 Over]), Pick 7 Over]), Pick 0 (Each [Pick 8 Over, Pick 8 Over, Pick
      8 Over, Pick 8 Over, Pick 5 (Each [Pick 6 (Each [Over]), Pick 3 Over, Pick 3 Over])]), Pick 1
      (Each [Pick 7 Over, Pick 7 Over, Pick 7 Over, Pick 8 (Each [Pick 6 (Each [Over]), Pick 0 Over,
      Pick 0 Over]), Pick 7 Over]), Pick 8 (Each [Pick 1 (Each [Pick 7 Over, Pick 7 Over, Pick 3 (Each
      [Over])]), Pick 0 Over, Pick 0 Over, Pick 0 Over, Pick 0 Over]), Pick 1 (Each [Pick 7 Over, Pick
      7 Over, Pick 7 Over, Pick 8 (Each [Pick 3 (Each [Over]), Pick 0 Over, Pick 0 Over]), Pick 7
      Over]), Pick 3 (Each [Pick 5 Over, Pick 5 Over, Pick 8 (Each [Pick 1 (Each [Over]), Pick 0 Over,
      Pick 0 Over]), Pick 5 Over, Pick 5 Over]), Pick 5 (Each [Pick 3 Over, Pick 3 Over, Pick 1 (Each
      [Pick 7 Over, Pick 7 Over, Pick 6 (Each [Over])]), Pick 3 Over, Pick 3 Over])]),
      Pick 4 (Each [Pick 6 (Each [Pick 2 Over, Pick 1 (Each [Pick 7 Over, Pick 5 (Each [Over]), Pick 7
      Over]), Pick 2 Over, Pick 2 Over, Pick 2 Over]), Pick 0 (Each [Pick 8 Over, Pick 8 Over, Pick 8
      Over, Pick 8 Over, Pick 2 (Each [Pick 6 Over, Pick 7 (Each [Over]), Pick 6 Over])]), Pick 1
      (Each [Pick 7 Over, Pick 7 Over, Pick 7 Over, Pick 8 (Each [Pick 6 (Each [Over]), Pick 0 Over,
      Pick 0 Over]), Pick 7 Over]), Pick 0 (Each [Pick 8 Over, Pick 8 Over, Pick 8 Over, Pick 8 Over,
      Pick 2 (Each [Pick 6 Over, Pick 1 Over, Pick 1 Over])]), Pick 0 (Each [Pick 8 Over, Pick 8 Over,
      Pick 8 Over, Pick 8 Over, Pick 7 (Each [Pick 2 (Each [Over]), Pick 1 Over, Pick 1 Over])]), Pick
      0 (Each [Pick 8 Over, Pick 8 Over, Pick 8 Over, Pick 8 Over, Pick 6 (Each [Pick 2 Over, Pick 5
      (Each [Over]), Pick 2 Over])]), Pick 1 (Each [Pick 7 Over, Pick 7 Over, Pick 7 Over, Pick 7
      Over, Pick 6 (Each [Pick 2 Over, Pick 5 (Each [Over]), Pick 2 Over])])]),
      Pick 0 (Each [Pick 7 (Each [Pick 6 (Each [Pick 8 Over, Pick 3 Over, Pick 3 Over]), Pick 5 (Each
      [Pick 6 (Each [Over]), Pick 2 (Each [Over]), Pick 2 (Each [Over])]), Pick 3 (Each [Pick 6 Over,
      Pick 2 (Each [Over]), Pick 6 Over]), Pick 2 (Each [Pick 5 (Each [Over]), Pick 3 (Each [Over]),
      Pick 3 (Each [Over])]), Pick 3 (Each [Pick 6 Over, Pick 6 Over, Pick 2 (Each [Over])])]), Pick 6
      (Each [Pick 3 Over, Pick 5 (Each [Pick 7 (Each [Over]), Pick 1 (Each [Over]), Pick 1 (Each
      [Over])]), Pick 3 Over, Pick 3 Over, Pick 3 Over]), Pick 5 (Each [Pick 7 (Each [Pick 6 (Each
      [Over]), Pick 2 (Each [Over]), Pick 2 (Each [Over])]), Pick 6 (Each [Pick 7 (Each [Over]), Pick
      1 (Each [Over]), Pick 1 (Each [Over])]), Pick 2 (Each [Pick 8 Over, Pick 1 Over, Pick 1 Over]),
      Pick 1 (Each [Pick 6 (Each [Over]), Pick 2 Over, Pick 2 Over]), Pick 1 (Each [Pick 6 (Each
      [Over]), Pick 2 Over, Pick 2 Over])]), Pick 3 (Each [Pick 6 Over, Pick 6 Over, Pick 2 (Each
      [Pick 7 (Each [Over]), Pick 1 Over, Pick 1 Over]), Pick 6 Over, Pick 6 Over]), Pick 2 (Each
      [Pick 7 (Each [Pick 5 (Each [Over]), Pick 3 (Each [Over]), Pick 3 (Each [Over])]), Pick 1 Over,
      Pick 1 Over, Pick 1 Over, Pick 1 Over]), Pick 1 (Each [Pick 6 (Each [Pick 5 (Each [Over]), Pick
      3 Over, Pick 3 Over]), Pick 2 Over, Pick 2 Over, Pick 2 Over, Pick 2 Over]), Pick 2 (Each [Pick
      7 (Each [Pick 5 (Each [Over]), Pick 3 (Each [Over]), Pick 3 (Each [Over])]), Pick 1 Over, Pick 1
      Over, Pick 1 Over, Pick 1 Over])]),
      Pick 4 (Each [Pick 1 (Each [Pick 7 Over, Pick 7 Over, Pick 7 Over, Pick 6 (Each [Pick 8 (Each
      [Over]), Pick 2 Over, Pick 2 Over]), Pick 7 Over]), Pick 0 (Each [Pick 8 Over, Pick 8 Over, Pick
      8 Over, Pick 8 Over, Pick 2 (Each [Pick 6 Over, Pick 7 (Each [Over]), Pick 6 Over])]), Pick 8
      (Each [Pick 1 (Each [Pick 7 Over, Pick 7 Over, Pick 3 (Each [Over])]), Pick 0 Over, Pick 0 Over,
      Pick 0 Over, Pick 0 Over]), Pick 0 (Each [Pick 8 Over, Pick 8 Over, Pick 8 Over, Pick 8 Over,
      Pick 2 (Each [Pick 6 Over, Pick 1 Over, Pick 1 Over])]), Pick 1 (Each [Pick 7 Over, Pick 7 Over,
      Pick 7 Over, Pick 8 (Each [Pick 3 (Each [Over]), Pick 0 Over, Pick 0 Over]), Pick 7 Over]), Pick
      2 (Each [Pick 6 Over, Pick 6 Over, Pick 6 Over, Pick 8 (Each [Pick 3 (Each [Over]), Pick 0 Over,
      Pick 0 Over]), Pick 6 Over]), Pick 2 (Each [Pick 6 Over, Pick 6 Over, Pick 6 Over, Pick 7 (Each
      [Pick 1 Over, Pick 0 (Each [Over]), Pick 1 Over]), Pick 6 Over])]),
      Pick 4 (Each [Pick 3 (Each [Pick 5 Over, Pick 5 Over, Pick 1 (Each [Pick 7 Over, Pick 8 (Each
      [Over]), Pick 7 Over]), Pick 5 Over, Pick 5 Over]), Pick 3 (Each [Pick 5 Over, Pick 5 Over, Pick
      8 (Each [Pick 2 (Each [Over]), Pick 0 Over, Pick 0 Over]), Pick 5 Over, Pick 5 Over]), Pick 1
      (Each [Pick 7 Over, Pick 7 Over, Pick 7 Over, Pick 8 (Each [Pick 3 (Each [Over]), Pick 0 Over,
      Pick 0 Over]), Pick 7 Over]), Pick 0 (Each [Pick 8 Over, Pick 8 Over, Pick 8 Over, Pick 8 Over,
      Pick 7 (Each [Pick 2 (Each [Over]), Pick 1 Over, Pick 1 Over])]), Pick 1 (Each [Pick 7 Over,
      Pick 7 Over, Pick 7 Over, Pick 8 (Each [Pick 3 (Each [Over]), Pick 0 Over, Pick 0 Over]), Pick 7
      Over]), Pick 8 (Each [Pick 3 (Each [Pick 5 Over, Pick 5 Over, Pick 1 (Each [Over])]), Pick 0
      Over, Pick 0 Over, Pick 0 Over, Pick 0 Over]), Pick 7 (Each [Pick 1 Over, Pick 3 (Each [Pick 5
      Over, Pick 5 Over, Pick 2 (Each [Over])]), Pick 1 Over, Pick 1 Over, Pick 1 Over])]),
      Pick 4 (Each [Pick 3 (Each [Pick 5 Over, Pick 5 Over, Pick 2 (Each [Pick 6 Over, Pick 8 (Each
      [Over]), Pick 6 Over]), Pick 5 Over, Pick 5 Over]), Pick 0 (Each [Pick 8 Over, Pick 8 Over, Pick
      8 Over, Pick 8 Over, Pick 6 (Each [Pick 3 Over, Pick 2 Over, Pick 2 Over])]), Pick 3 (Each [Pick
      5 Over, Pick 5 Over, Pick 8 (Each [Pick 1 (Each [Over]), Pick 0 Over, Pick 0 Over]), Pick 5
      Over, Pick 5 Over]), Pick 0 (Each [Pick 8 Over, Pick 8 Over, Pick 8 Over, Pick 8 Over, Pick 6
      (Each [Pick 2 Over, Pick 5 (Each [Over]), Pick 2 Over])]), Pick 2 (Each [Pick 6 Over, Pick 6
      Over, Pick 6 Over, Pick 8 (Each [Pick 3 (Each [Over]), Pick 0 Over, Pick 0 Over]), Pick 6
      Over]), Pick 8 (Each [Pick 3 (Each [Pick 5 Over, Pick 5 Over, Pick 1 (Each [Over])]), Pick 0
      Over, Pick 0 Over, Pick 0 Over, Pick 0 Over]), Pick 6 (Each [Pick 2 Over, Pick 2 Over, Pick 5
      (Each [Pick 3 Over, Pick 3 Over, Pick 0 (Each [Over])]), Pick 2 Over, Pick 2 Over])]),
      Pick 4 (Each [Pick 1 (Each [Pick 7 Over, Pick 7 Over, Pick 7 Over, Pick 7 Over, Pick 6 (Each
      [Pick 5 (Each [Over]), Pick 2 Over, Pick 2 Over])]), Pick 3 (Each [Pick 5 Over, Pick 5 Over,
      Pick 2 (Each [Pick 6 Over, Pick 7 (Each [Over]), Pick 6 Over]), Pick 5 Over, Pick 5 Over]), Pick
      5 (Each [Pick 3 Over, Pick 3 Over, Pick 1 (Each [Pick 7 Over, Pick 7 Over, Pick 6 (Each
      [Over])]), Pick 3 Over, Pick 3 Over]), Pick 1 (Each [Pick 7 Over, Pick 7 Over, Pick 7 Over, Pick
      7 Over, Pick 6 (Each [Pick 2 Over, Pick 5 (Each [Over]), Pick 2 Over])]), Pick 2 (Each [Pick 6
      Over, Pick 6 Over, Pick 6 Over, Pick 7 (Each [Pick 1 Over, Pick 0 (Each [Over]), Pick 1 Over]),
      Pick 6 Over]), Pick 7 (Each [Pick 1 Over, Pick 3 (Each [Pick 5 Over, Pick 5 Over, Pick 2 (Each
      [Over])]), Pick 1 Over, Pick 1 Over, Pick 1 Over]), Pick 6 (Each [Pick 2 Over, Pick 2 Over, Pick
      5 (Each [Pick 3 Over, Pick 3 Over, Pick 0 (Each [Over])]), Pick 2 Over, Pick 2 Over])])]"



section \<open>Games played by the program\<close>

text \<open>
  A game as the main loop plays it: the loop stops when \<open>check_winner\<close> reports an
  outcome \<open>w\<close>; otherwise the player to move places a symbol and the turn passes to
  the other. A symbol in \<open>ais\<close> is played by \<open>best_move_for_ai\<close>, with any random
  source; any other symbol may take any empty cell, as a human may.
\<close>

inductive ai_game :: "string set \<Rightarrow> board \<Rightarrow> string \<Rightarrow> string \<Rightarrow> bool"
  for ais :: "string set" where
  game_over: "check_winner b = Inr (Some w) \<Longrightarrow> ai_game ais b p w"
| ai_turn: "check_winner b = Inr None \<Longrightarrow> p \<in> ais \<Longrightarrow>
     best_move_for_ai b p randbelow = Inr (m, b') \<Longrightarrow>
     ai_game ais (b'[m := p]) (other p) w \<Longrightarrow> ai_game ais b p w"
| free_turn: "check_winner b = Inr None \<Longrightarrow> p \<notin> ais \<Longrightarrow>
     m < length b \<Longrightarrow> b ! m = '' '' \<Longrightarrow>
     ai_game ais (b[m := p]) (other p) w \<Longrightarrow> ai_game ais b p w"

section \<open>The search terminates\<close>

lemma available_moves_set:
  "set (available_moves b) = {i. i < length b \<and> b ! i = '' ''}"
  unfolding available_moves_def
  by (auto simp: in_set_enumerate_eq image_iff)

lemma restore_partial:
  "minimax_max_loop_min_loop_dom (Inl (b, p, mp, al, be)) \<Longrightarrow>
     (\<forall>r b'. minimax b p mp al be = Inr (r, b') \<longrightarrow> b' = b)"
  "minimax_max_loop_min_loop_dom (Inr (Inl (ms, b, p, mp, al, be, v, bm))) \<Longrightarrow>
     (\<forall>m \<in> set ms. m < length b \<and> b ! m = '' '') \<longrightarrow>
     (\<forall>r b'. max_loop ms b p mp al be v bm = Inr (r, b') \<longrightarrow> b' = b)"
  "minimax_max_loop_min_loop_dom (Inr (Inr (ms, b, p, mp, al, be, v, bm))) \<Longrightarrow>
     (\<forall>m \<in> set ms. m < length b \<and> b ! m = '' '') \<longrightarrow>
     (\<forall>r b'. min_loop ms b p mp al be v bm = Inr (r, b') \<longrightarrow> b' = b)"
proof (induct rule: minimax_max_loop_min_loop.pinduct)
  case (1 board player maximizing_player alpha beta)
  then show ?case
    by (auto simp: minimax.psimps available_moves_set split: sum.splits option.splits if_splits)
next
  case (2 board player maximizing_player alpha beta "value" best_move)
  then show ?case by (simp add: max_loop.psimps)
next
  case (3 m ms board player maximizing_player alpha beta "value" best_move)
  show ?case
  proof (intro impI allI)
    fix r b'
    assume pre: "\<forall>m\<in>set (m # ms). m < length board \<and> board ! m = '' ''"
      and res: "max_loop (m # ms) board player maximizing_player alpha beta value best_move = Inr (r, b')"
    from pre have m: "m < length board" "board ! m = '' ''" by auto
    from res m obtain sc mv bd where
      call: "minimax (board[m := player]) (other player) maximizing_player alpha beta = Inr ((sc, mv), bd)"
      by (auto simp: max_loop.psimps(2)[OF 3(1)] split: sum.splits)
    from 3(2)[OF _] m call have bd: "bd = board[m := player]" by auto
    have undo: "bd[m := '' ''] = board" using bd m by (simp add: list_update_same_conv)
    show "b' = board"
      using res m call undo pre 3(3)[OF _ call refl refl _ refl refl refl refl]
      by (auto simp add: max_loop.psimps(2)[OF 3(1)] Let_def bd split: if_splits)
  qed
next
  case (4 board player maximizing_player alpha beta "value" best_move)
  then show ?case by (simp add: min_loop.psimps)
next
  case (5 m ms board player maximizing_player alpha beta "value" best_move)
  show ?case
  proof (intro impI allI)
    fix r b'
    assume pre: "\<forall>m\<in>set (m # ms). m < length board \<and> board ! m = '' ''"
      and res: "min_loop (m # ms) board player maximizing_player alpha beta value best_move = Inr (r, b')"
    from pre have m: "m < length board" "board ! m = '' ''" by auto
    from res m obtain sc mv bd where
      call: "minimax (board[m := player]) (other player) maximizing_player alpha beta = Inr ((sc, mv), bd)"
      by (auto simp: min_loop.psimps(2)[OF 5(1)] split: sum.splits)
    from 5(2)[OF _] m call have bd: "bd = board[m := player]" by auto
    have undo: "bd[m := '' ''] = board" using bd m by (simp add: list_update_same_conv)
    show "b' = board"
      using res m call undo pre 5(3)[OF _ call refl refl _ refl refl refl refl]
      by (auto simp add: min_loop.psimps(2)[OF 5(1)] Let_def bd split: if_splits)
  qed
qed


lemma restore_minimax_dom:
  "minimax_max_loop_min_loop_dom (Inl (b, p, mp, al, be)) \<Longrightarrow>
     minimax b p mp al be = Inr (r, b') \<Longrightarrow> b' = b"
  using restore_partial(1) by blast

lemma other_not_empty: "other p \<noteq> '' ''"
  by (simp add: other_def)

lemma empties_update_empty:
  "m < length b \<Longrightarrow> empties (b[m := '' '']) = (if b ! m = '' '' then empties b else Suc (empties b))"
  unfolding empties_def
proof (induction b arbitrary: m)
  case Nil
  then show ?case by simp
next
  case (Cons a b)
  then show ?case by (cases m) auto
qed

lemma empties_update_symbol:
  "m < length b \<Longrightarrow> p \<noteq> '' '' \<Longrightarrow> Suc (empties (b[m := p])) = empties (b[m := '' ''])"
  unfolding empties_def
proof (induction b arbitrary: m)
  case Nil
  then show ?case by simp
next
  case (Cons a b)
  then show ?case by (cases m) auto
qed

lemma empties_update_empty_ge: "empties b \<le> empties (b[m := '' ''])"
  by (cases "m < length b") (simp_all add: empties_update_empty list_update_beyond)

lemma empties_clear_cells_ge: "empties b \<le> empties (clear_cells ms b)"
  unfolding clear_cells_def
proof (induction ms arbitrary: b)
  case Nil
  then show ?case by simp
next
  case (Cons m ms)
  have "empties b \<le> empties (b[m := '' ''])" by (rule empties_update_empty_ge)
  also have "\<dots> \<le> empties (fold (\<lambda>m b. b[m := '' '']) ms (b[m := '' '']))" by (rule Cons.IH)
  finally show ?case by simp
qed

lemma clear_cells_Cons: "clear_cells (m # ms) b = clear_cells ms (b[m := '' ''])"
  by (simp add: clear_cells_def)

lemma clear_cells_id:
  "\<forall>m \<in> set ms. m < length b \<and> b ! m = '' '' \<Longrightarrow> clear_cells ms b = b"
  unfolding clear_cells_def
proof (induction ms)
  case Nil
  then show ?case by simp
next
  case (Cons m ms)
  then have "b[m := '' ''] = b" by (metis list.set_intros(1) list_update_id)
  with Cons show ?case by simp
qed

lemma clear_cells_available: "clear_cells (available_moves b) b = b"
  by (rule clear_cells_id) (simp add: available_moves_set)

lemma weight_child:
  assumes "m < length b"
  shows "3 * empties (b[m := p]) + 1 < 3 * empties (clear_cells (m # ms) b) + (if p = '' '' then 2 else 0)"
proof -
  have ge: "empties (b[m := '' '']) \<le> empties (clear_cells (m # ms) b)"
    by (simp add: clear_cells_Cons empties_clear_cells_ge)
  show ?thesis
  proof (cases "p = '' ''")
    case True
    with ge show ?thesis by simp
  next
    case False
    with assms have "Suc (empties (b[m := p])) = empties (b[m := '' ''])"
      by (simp add: empties_update_symbol)
    with ge False show ?thesis by simp
  qed
qed

lemma minimax_total: "All minimax_max_loop_min_loop_dom"
proof (relation "measures [call_weight, call_rest]")
  show "wf (measures [call_weight, call_rest])" by simp
next
  fix board :: board and player maximizing_player :: string and alpha beta :: score
  show "(Inr (Inl (available_moves board, board, player, maximizing_player, alpha, beta, NegInf, None)),
         Inl (board, player, maximizing_player, alpha, beta)) \<in> measures [call_weight, call_rest]"
    by (simp add: call_weight_def clear_cells_available)
  show "(Inr (Inr (available_moves board, board, player, maximizing_player, alpha, beta, PosInf, None)),
         Inl (board, player, maximizing_player, alpha, beta)) \<in> measures [call_weight, call_rest]"
    by (simp add: call_weight_def clear_cells_available)
next
  fix m :: nat and ms :: "nat list" and board :: board and player maximizing_player :: string
    and alpha beta val :: score and best_move :: "nat option"
  assume "\<not> length board \<le> m"
  then show "(Inl (board[m := player], other player, maximizing_player, alpha, beta),
         Inr (Inl (m # ms, board, player, maximizing_player, alpha, beta, val, best_move)))
        \<in> measures [call_weight, call_rest]"
    using weight_child[of m board player ms]
    by (simp add: call_weight_def other_not_empty)
  show "(Inl (board[m := player], other player, maximizing_player, alpha, beta),
         Inr (Inr (m # ms, board, player, maximizing_player, alpha, beta, val, best_move)))
        \<in> measures [call_weight, call_rest]"
    using weight_child[of m board player ms] \<open>\<not> length board \<le> m\<close>
    by (simp add: call_weight_def other_not_empty)
next
  fix m :: nat and ms :: "nat list" and board :: board and player maximizing_player :: string
    and alpha beta val :: score and best_move :: "nat option"
    and b :: "(score \<times> nat option) \<times> board" and x :: "score \<times> nat option" and y xb :: board
    and xa xc xe :: score and ya xd :: "nat option"
  assume len: "\<not> length board \<le> m"
    and call: "minimax (board[m := player]) (other player) maximizing_player alpha beta = Inr b"
    and b: "(x, y) = b"
    and xb: "xb = y[m := '' '']"
    and dom: "minimax_max_loop_min_loop_dom
                (Inl (board[m := player], other player, maximizing_player, alpha, beta))"
  from call b have "minimax (board[m := player]) (other player) maximizing_player alpha beta = Inr (x, y)"
    by simp
  from restore_minimax_dom[OF dom this] have y: "y = board[m := player]" .
  have w: "clear_cells ms xb = clear_cells (m # ms) board"
    by (simp add: xb y clear_cells_Cons)
  show "(Inr (Inl (ms, xb, player, maximizing_player, xe, beta, xc, xd)),
         Inr (Inl (m # ms, board, player, maximizing_player, alpha, beta, val, best_move)))
        \<in> measures [call_weight, call_rest]"
    by (simp add: call_weight_def call_rest_def w)
  show "(Inr (Inr (ms, xb, player, maximizing_player, alpha, xe, xc, xd)),
         Inr (Inr (m # ms, board, player, maximizing_player, alpha, beta, val, best_move)))
        \<in> measures [call_weight, call_rest]"
    by (simp add: call_weight_def call_rest_def w)
qed




termination minimax
  by (rule minimax_total)

declare minimax.simps [simp del]

lemma minimax_dom: "minimax_max_loop_min_loop_dom x"
  using minimax_total by blast


section \<open>The search returns and leaves the board as it was\<close>

lemma check_lines_find:
  "\<forall>(a, b, c) \<in> set ls. a < length bd \<and> b < length bd \<and> c < length bd \<Longrightarrow>
   check_lines bd ls =
     Inr (case find (line_full bd) ls of
            Some (a, b, c) \<Rightarrow> Some (bd ! a)
          | None \<Rightarrow> if '' '' \<notin> set bd then Some ''D'' else None)"
proof (induction ls)
  case Nil
  then show ?case by simp
next
  case (Cons l ls)
  obtain a b c where l: "l = (a, b, c)" by (cases l) auto
  with Cons.prems have "a < length bd" "b < length bd" "c < length bd" by auto
  then have won: "line_won bd a b c = Inr (line_full bd (a, b, c))"
    by (auto simp: line_won_def getitem_def line_full_def)
  show ?case
    using Cons won \<open>a < length bd\<close> by (simp add: l getitem_def)
qed

lemma check_winner_find: "9 \<le> length b \<Longrightarrow> check_winner b = Inr (winner_of b)"
  unfolding check_winner_def winner_of_def
  by (rule check_lines_find) (auto simp: WIN_LINES_def)

lemma minimax_returns_aux:
  "9 \<le> length b \<longrightarrow> (\<exists>r. minimax b p mp al be = Inr (r, b))"
  "9 \<le> length b \<and> (\<forall>m \<in> set ms. m < length b \<and> b ! m = '' '') \<longrightarrow>
     (\<exists>r. max_loop ms b p mp al be v bm = Inr (r, b))"
  "9 \<le> length b \<and> (\<forall>m \<in> set ms. m < length b \<and> b ! m = '' '') \<longrightarrow>
     (\<exists>r. min_loop ms b p mp al be v bm = Inr (r, b))"
proof (induct b p mp al be and ms b p mp al be v bm and ms b p mp al be v bm
       rule: minimax_max_loop_min_loop.induct)
  case (1 board player maximizing_player alpha beta)
  show ?case
  proof
    assume len: "9 \<le> length board"
    show "\<exists>r. minimax board player maximizing_player alpha beta = Inr (r, board)"
    proof (cases "winner_of board")
      case None
      with len have cw: "check_winner board = Inr None" by (simp add: check_winner_find)
      show ?thesis
      proof (cases "player = maximizing_player")
        case True
        from 1(1)[OF cw refl True] len show ?thesis
          by (simp add: minimax.simps cw True available_moves_set)
      next
        case False
        from 1(2)[OF cw refl False] len show ?thesis
          by (simp add: minimax.simps cw False available_moves_set)
      qed
    next
      case (Some w)
      with len show ?thesis by (simp add: minimax.simps check_winner_find)
    qed
  qed
next
  case (2 board player maximizing_player alpha beta val best_move)
  show ?case by simp
next
  case (3 m ms board player maximizing_player alpha beta val best_move)
  show ?case
  proof
    assume pre: "9 \<le> length board \<and> (\<forall>m\<in>set (m # ms). m < length board \<and> board ! m = '' '')"
    then have m: "m < length board" "board ! m = '' ''" and len: "9 \<le> length board" by auto
    from 3(1) m len obtain sc mv where
      call: "minimax (board[m := player]) (other player) maximizing_player alpha beta
               = Inr ((sc, mv), board[m := player])"
      by fastforce
    have undo: "board[m := '' ''] = board"
      using m by (metis list_update_id)
    show "\<exists>r. max_loop (m # ms) board player maximizing_player alpha beta val best_move
                = Inr (r, board)"
      using 3(2)[OF _ call refl refl _ refl refl refl refl] pre m
      by (simp add: call undo Let_def)
  qed
next
  case (4 board player maximizing_player alpha beta val best_move)
  show ?case by simp
next
  case (5 m ms board player maximizing_player alpha beta val best_move)
  show ?case
  proof
    assume pre: "9 \<le> length board \<and> (\<forall>m\<in>set (m # ms). m < length board \<and> board ! m = '' '')"
    then have m: "m < length board" "board ! m = '' ''" and len: "9 \<le> length board" by auto
    from 5(1) m len obtain sc mv where
      call: "minimax (board[m := player]) (other player) maximizing_player alpha beta
               = Inr ((sc, mv), board[m := player])"
      by fastforce
    have undo: "board[m := '' ''] = board"
      using m by (metis list_update_id)
    show "\<exists>r. min_loop (m # ms) board player maximizing_player alpha beta val best_move
                = Inr (r, board)"
      using 5(2)[OF _ call refl refl _ refl refl refl refl] pre m
      by (simp add: call undo Let_def)
  qed
qed


lemma minimax_restores: "minimax b p mp al be = Inr (r, b') \<Longrightarrow> b' = b"
  using restore_partial(1)[OF minimax_dom] by blast

lemma minimax_returns: "9 \<le> length b \<Longrightarrow> \<exists>r. minimax b p mp al be = Inr (r, b)"
  using minimax_returns_aux(1) by blast

lemma best_moves_loop_restores:
  "best_moves_loop ms b ai bs bms = Inr (r, b') \<Longrightarrow>
   \<forall>m \<in> set ms. m < length b \<and> b ! m = '' '' \<Longrightarrow> b' = b"
proof (induction ms arbitrary: bs bms)
  case Nil
  then show ?case by simp
next
  case (Cons m ms)
  then have m: "m < length b" "b ! m = '' ''" by auto
  with Cons.prems(1) obtain sc mv bd where
    call: "minimax (b[m := ai]) (other ai) ai NegInf PosInf = Inr ((sc, mv), bd)"
    by (auto split: sum.splits)
  then have bd: "bd = b[m := ai]" by (rule minimax_restores)
  have undo: "b[m := '' ''] = b" using m by (metis list_update_id)
  from Cons.prems show ?case
    using Cons.IH m
    by (simp add: call bd undo Let_def split: if_splits)
qed

lemma best_moves_loop_returns:
  "9 \<le> length b \<Longrightarrow> \<forall>m \<in> set ms. m < length b \<and> b ! m = '' '' \<Longrightarrow>
   \<exists>r. best_moves_loop ms b ai bs bms = Inr (r, b)"
proof (induction ms arbitrary: bs bms)
  case Nil
  then show ?case by simp
next
  case (Cons m ms)
  then have m: "m < length b" "b ! m = '' ''" by auto
  from minimax_returns[of "b[m := ai]" "other ai" ai NegInf PosInf] Cons.prems(1)
  obtain sc mv where
    call: "minimax (b[m := ai]) (other ai) ai NegInf PosInf = Inr ((sc, mv), b[m := ai])"
    by auto
  have undo: "b[m := '' ''] = b" using m by (metis list_update_id)
  show ?case
    using Cons.IH Cons.prems m
    by (simp add: call undo Let_def)
qed

lemma best_moves_loop_nonempty:
  "best_moves_loop ms b ai bs bms = Inr ((bs', bms'), b') \<Longrightarrow>
   bms \<noteq> [] \<or> (bs = NegInf \<and> ms \<noteq> []) \<Longrightarrow> bms' \<noteq> []"
proof (induction ms arbitrary: b bs bms)
  case Nil
  then show ?case by simp
next
  case (Cons m ms)
  from Cons.prems(1) obtain sc mv bd where
    call: "minimax (b[m := ai]) (other ai) ai NegInf PosInf = Inr ((sc, mv), bd)"
    by (auto split: sum.splits if_splits)
  have ninf: "bs = NegInf \<Longrightarrow> \<not> sc > bs \<Longrightarrow> sc = bs"
    by (cases sc) (auto simp: less_score_def)
  from Cons.prems show ?case
    using Cons.IH ninf
    by (auto simp: call Let_def split: if_splits)
qed

lemma available_moves_nonempty: "'' '' \<in> set b \<Longrightarrow> available_moves b \<noteq> []"
proof -
  assume "'' '' \<in> set b"
  then obtain i where "i < length b" "b ! i = '' ''" by (auto simp: in_set_conv_nth)
  then have "i \<in> set (available_moves b)" by (simp add: available_moves_set)
  then show ?thesis by auto
qed

lemma best_move_for_ai_returns:
  assumes len: "9 \<le> length b" and e: "'' '' \<in> set b" and rb: "\<forall>n>0. rb n < n"
  shows "\<exists>m. best_move_for_ai b ai rb = Inr (m, b)"
proof -
  from best_moves_loop_returns[OF len, of "available_moves b" ai NegInf "[]"]
  obtain bs bms where loop: "best_moves_loop (available_moves b) b ai NegInf [] = Inr ((bs, bms), b)"
    by (auto simp: available_moves_set)
  from best_moves_loop_nonempty[OF loop] available_moves_nonempty[OF e] have "bms \<noteq> []" by simp
  with rb have "rb (length bms) < length bms" by simp
  with \<open>bms \<noteq> []\<close> show ?thesis
    by (simp add: best_move_for_ai_def loop random_choice_def)
qed

section \<open>Scores and moves returned by the search\<close>

lemma scores_finite: "s \<in> scores \<Longrightarrow> NegInf < s \<and> s < PosInf"
  by (auto simp: scores_def less_score_def)

lemma winner_of_None_empty: "winner_of b = None \<Longrightarrow> '' '' \<in> set b"
  by (auto simp: winner_of_def split: option.splits if_splits)

lemma minimax_result_aux:
  "9 \<le> length b \<longrightarrow>
     (\<exists>s mv. minimax b p mp al be = Inr ((s, mv), b) \<and> s \<in> scores \<and>
        (winner_of b \<noteq> None \<longrightarrow> mv = None) \<and>
        (winner_of b = None \<longrightarrow> (\<exists>m. mv = Some m \<and> m < length b \<and> b ! m = '' '')))"
  "9 \<le> length b \<and> (\<forall>m \<in> set ms. m < length b \<and> b ! m = '' '') \<and>
     ((v \<in> scores \<and> (\<exists>m'. bm = Some m' \<and> m' < length b \<and> b ! m' = '' '')) \<or>
      (v = NegInf \<and> ms \<noteq> [])) \<longrightarrow>
     (\<exists>s m. max_loop ms b p mp al be v bm = Inr ((s, Some m), b) \<and> s \<in> scores \<and>
        m < length b \<and> b ! m = '' '')"
  "9 \<le> length b \<and> (\<forall>m \<in> set ms. m < length b \<and> b ! m = '' '') \<and>
     ((v \<in> scores \<and> (\<exists>m'. bm = Some m' \<and> m' < length b \<and> b ! m' = '' '')) \<or>
      (v = PosInf \<and> ms \<noteq> [])) \<longrightarrow>
     (\<exists>s m. min_loop ms b p mp al be v bm = Inr ((s, Some m), b) \<and> s \<in> scores \<and>
        m < length b \<and> b ! m = '' '')"
proof (induct b p mp al be and ms b p mp al be v bm and ms b p mp al be v bm
       rule: minimax_max_loop_min_loop.induct)
  case (1 board player maximizing_player alpha beta)
  show ?case
  proof
    assume len: "9 \<le> length board"
    show "\<exists>s mv. minimax board player maximizing_player alpha beta = Inr ((s, mv), board) \<and>
            s \<in> scores \<and> (winner_of board \<noteq> None \<longrightarrow> mv = None) \<and>
            (winner_of board = None \<longrightarrow> (\<exists>m. mv = Some m \<and> m < length board \<and> board ! m = '' ''))"
    proof (cases "winner_of board")
      case None
      with len have cw: "check_winner board = Inr None" by (simp add: check_winner_find)
      from None have ne: "available_moves board \<noteq> []"
        by (simp add: winner_of_None_empty available_moves_nonempty)
      show ?thesis
      proof (cases "player = maximizing_player")
        case True
        from 1(1)[OF cw refl True] len ne show ?thesis
          by (auto simp: minimax.simps cw True None available_moves_set)
      next
        case False
        from 1(2)[OF cw refl False] len ne show ?thesis
          by (auto simp: minimax.simps cw False None available_moves_set)
      qed
    next
      case (Some w)
      with len show ?thesis by (simp add: minimax.simps check_winner_find scores_def)
    qed
  qed
next
  case (2 board player maximizing_player alpha beta val best_move)
  show ?case by auto
next
  case (3 m ms board player maximizing_player alpha beta val best_move)
  show ?case
  proof
    assume pre: "9 \<le> length board \<and> (\<forall>m\<in>set (m # ms). m < length board \<and> board ! m = '' '') \<and>
      ((val \<in> scores \<and> (\<exists>m'. best_move = Some m' \<and> m' < length board \<and> board ! m' = '' '')) \<or>
       (val = NegInf \<and> m # ms \<noteq> []))"
    then have m: "m < length board" "board ! m = '' ''" and len: "9 \<le> length board" by auto
    from 3(1) m len obtain sc mv where
      call: "minimax (board[m := player]) (other player) maximizing_player alpha beta
               = Inr ((sc, mv), board[m := player])" and sc: "sc \<in> scores"
      by fastforce
    have undo: "board[m := '' ''] = board"
      using m by (metis list_update_id)
    let ?v = "if val < sc then sc else val"
    let ?bm = "if val < sc then Some m else best_move"
    have inv: "?v \<in> scores \<and> (\<exists>m'. ?bm = Some m' \<and> m' < length board \<and> board ! m' = '' '')"
      using pre sc m scores_finite[OF sc] by auto
    show "\<exists>s ma. max_loop (m # ms) board player maximizing_player alpha beta val best_move
                = Inr ((s, Some ma), board) \<and> s \<in> scores \<and> ma < length board \<and> board ! ma = '' ''"
    proof (cases "beta \<le> max alpha ?v")
      case True
      with inv m show ?thesis
        by (auto simp: call undo Let_def)
    next
      case False
      from 3(2)[OF _ call refl refl _ refl refl refl refl] m False undo pre inv
      have "\<exists>s ma. max_loop ms board player maximizing_player (max alpha ?v) beta ?v ?bm
                = Inr ((s, Some ma), board) \<and> s \<in> scores \<and> ma < length board \<and> board ! ma = '' ''"
        by simp
      with False m show ?thesis
        by (simp add: call undo Let_def)
    qed
  qed
next
  case (4 board player maximizing_player alpha beta val best_move)
  show ?case by auto
next
  case (5 m ms board player maximizing_player alpha beta val best_move)
  show ?case
  proof
    assume pre: "9 \<le> length board \<and> (\<forall>m\<in>set (m # ms). m < length board \<and> board ! m = '' '') \<and>
      ((val \<in> scores \<and> (\<exists>m'. best_move = Some m' \<and> m' < length board \<and> board ! m' = '' '')) \<or>
       (val = PosInf \<and> m # ms \<noteq> []))"
    then have m: "m < length board" "board ! m = '' ''" and len: "9 \<le> length board" by auto
    from 5(1) m len obtain sc mv where
      call: "minimax (board[m := player]) (other player) maximizing_player alpha beta
               = Inr ((sc, mv), board[m := player])" and sc: "sc \<in> scores"
      by fastforce
    have undo: "board[m := '' ''] = board"
      using m by (metis list_update_id)
    let ?v = "if sc < val then sc else val"
    let ?bm = "if sc < val then Some m else best_move"
    have inv: "?v \<in> scores \<and> (\<exists>m'. ?bm = Some m' \<and> m' < length board \<and> board ! m' = '' '')"
      using pre sc m scores_finite[OF sc] by auto
    show "\<exists>s ma. min_loop (m # ms) board player maximizing_player alpha beta val best_move
                = Inr ((s, Some ma), board) \<and> s \<in> scores \<and> ma < length board \<and> board ! ma = '' ''"
    proof (cases "min beta ?v \<le> alpha")
      case True
      with inv m show ?thesis
        by (auto simp: call undo Let_def)
    next
      case False
      from 5(2)[OF _ call refl refl _ refl refl refl refl] m False undo pre inv
      have "\<exists>s ma. min_loop ms board player maximizing_player alpha (min beta ?v) ?v ?bm
                = Inr ((s, Some ma), board) \<and> s \<in> scores \<and> ma < length board \<and> board ! ma = '' ''"
        by simp
      with False m show ?thesis
        by (simp add: call undo Let_def)
    qed
  qed
qed


lemma empties_le_length: "empties b \<le> length b"
  unfolding empties_def by (induction b) auto

lemma empties_child:
  assumes "m \<in> set (available_moves b)" "p \<noteq> '' ''"
  shows "Suc (empties (b[m := p])) = empties b"
proof -
  from assms(1) have m: "m < length b" "b ! m = '' ''" by (auto simp: available_moves_set)
  then have "b[m := '' ''] = b" by (metis list_update_id)
  with empties_update_symbol[OF m(1) assms(2)] show ?thesis by simp
qed

section \<open>Depth of the recursion\<close>

termination minimax_within
  by (relation "measures [nesting_left, moves_left]")
     (simp_all add: nesting_left_def moves_left_def)

declare minimax_within.simps [simp del]

lemma within_agrees:
  "\<forall>d. player \<noteq> '' '' \<and> empties b < d \<longrightarrow>
     minimax_within d b player mp al be = Some (minimax b player mp al be)"
  "\<forall>d. player \<noteq> '' '' \<and> (\<forall>m \<in> set ms. m < length b \<and> b ! m = '' '') \<and> empties b \<le> d \<longrightarrow>
     max_loop_within d ms b player mp al be v bm = Some (max_loop ms b player mp al be v bm)"
  "\<forall>d. player \<noteq> '' '' \<and> (\<forall>m \<in> set ms. m < length b \<and> b ! m = '' '') \<and> empties b \<le> d \<longrightarrow>
     min_loop_within d ms b player mp al be v bm = Some (min_loop ms b player mp al be v bm)"
proof (induct b player mp al be and ms b player mp al be v bm and ms b player mp al be v bm
       rule: minimax_max_loop_min_loop.induct)
  case (1 board player maximizing_player alpha beta)
  show ?case
  proof (intro allI impI)
    fix d assume pre: "player \<noteq> '' '' \<and> empties board < d"
    then obtain d' where d: "d = Suc d'" "empties board \<le> d'" by (cases d) auto
    show "minimax_within d board player maximizing_player alpha beta
            = Some (minimax board player maximizing_player alpha beta)"
    proof (cases "check_winner board")
      case (Inl e)
      then show ?thesis by (simp add: d minimax_within.simps minimax.simps)
    next
      case (Inr w)
      show ?thesis
      proof (cases w)
        case (Some winner)
        with Inr show ?thesis by (simp add: d minimax_within.simps minimax.simps)
      next
        case None
        with Inr have cw: "check_winner board = Inr None" by simp
        show ?thesis
        proof (cases "player = maximizing_player")
          case True
          from 1(1)[OF cw refl True] pre d show ?thesis
            by (simp add: minimax_within.simps minimax.simps cw True available_moves_set)
        next
          case False
          from 1(2)[OF cw refl False] pre d show ?thesis
            by (simp add: minimax_within.simps minimax.simps cw False available_moves_set)
        qed
      qed
    qed
  qed
next
  case (2 board player maximizing_player alpha beta val best_move)
  show ?case by simp
next
  case (3 m ms board player maximizing_player alpha beta val best_move)
  show ?case
  proof (intro allI impI)
    fix d
    assume pre: "player \<noteq> '' '' \<and> (\<forall>m\<in>set (m # ms). m < length board \<and> board ! m = '' '') \<and>
                 empties board \<le> d"
    then have m: "m < length board" "board ! m = '' ''" and p: "player \<noteq> '' ''"
      and e: "empties board \<le> d"
      and rest: "\<forall>m\<in>set ms. m < length board \<and> board ! m = '' ''" by auto
    have undo: "board[m := '' ''] = board" using m by (metis list_update_id)
    from m have "m \<in> set (available_moves board)" by (simp add: available_moves_set)
    from empties_child[OF this p] e have "empties (board[m := player]) < d" by simp
    with 3(1) m have call: "minimax_within d (board[m := player]) (other player) maximizing_player alpha beta
        = Some (minimax (board[m := player]) (other player) maximizing_player alpha beta)"
      by (simp add: other_not_empty)
    show "max_loop_within d (m # ms) board player maximizing_player alpha beta val best_move
            = Some (max_loop (m # ms) board player maximizing_player alpha beta val best_move)"
    proof (cases "minimax (board[m := player]) (other player) maximizing_player alpha beta")
      case (Inl err)
      with m show ?thesis by (simp add: call)
    next
      case (Inr r)
      obtain sc mv bd where r: "r = ((sc, mv), bd)" by (cases r) auto
      from Inr r have res: "minimax (board[m := player]) (other player) maximizing_player alpha beta
          = Inr ((sc, mv), bd)" by simp
      from minimax_restores[OF res] have bd: "bd = board[m := player]" .
      show ?thesis
      proof (cases "beta \<le> max alpha (if val < sc then sc else val)")
        case True
        with m show ?thesis by (simp add: call res bd Let_def)
      next
        case False
        from 3(2)[OF _ res refl refl _ refl refl refl refl] m False p rest e
        have "max_loop_within d ms board player maximizing_player
                (max alpha (if val < sc then sc else val)) beta (if val < sc then sc else val)
                (if val < sc then Some m else best_move)
              = Some (max_loop ms board player maximizing_player
                (max alpha (if val < sc then sc else val)) beta (if val < sc then sc else val)
                (if val < sc then Some m else best_move))"
          by (simp add: bd undo)
        with False m show ?thesis by (simp add: call res bd undo Let_def)
      qed
    qed
  qed
next
  case (4 board player maximizing_player alpha beta val best_move)
  show ?case by simp
next
  case (5 m ms board player maximizing_player alpha beta val best_move)
  show ?case
  proof (intro allI impI)
    fix d
    assume pre: "player \<noteq> '' '' \<and> (\<forall>m\<in>set (m # ms). m < length board \<and> board ! m = '' '') \<and>
                 empties board \<le> d"
    then have m: "m < length board" "board ! m = '' ''" and p: "player \<noteq> '' ''"
      and e: "empties board \<le> d"
      and rest: "\<forall>m\<in>set ms. m < length board \<and> board ! m = '' ''" by auto
    have undo: "board[m := '' ''] = board" using m by (metis list_update_id)
    from m have "m \<in> set (available_moves board)" by (simp add: available_moves_set)
    from empties_child[OF this p] e have "empties (board[m := player]) < d" by simp
    with 5(1) m have call: "minimax_within d (board[m := player]) (other player) maximizing_player alpha beta
        = Some (minimax (board[m := player]) (other player) maximizing_player alpha beta)"
      by (simp add: other_not_empty)
    show "min_loop_within d (m # ms) board player maximizing_player alpha beta val best_move
            = Some (min_loop (m # ms) board player maximizing_player alpha beta val best_move)"
    proof (cases "minimax (board[m := player]) (other player) maximizing_player alpha beta")
      case (Inl err)
      with m show ?thesis by (simp add: call)
    next
      case (Inr r)
      obtain sc mv bd where r: "r = ((sc, mv), bd)" by (cases r) auto
      from Inr r have res: "minimax (board[m := player]) (other player) maximizing_player alpha beta
          = Inr ((sc, mv), bd)" by simp
      from minimax_restores[OF res] have bd: "bd = board[m := player]" .
      show ?thesis
      proof (cases "min beta (if sc < val then sc else val) \<le> alpha")
        case True
        with m show ?thesis by (simp add: call res bd Let_def)
      next
        case False
        from 5(2)[OF _ res refl refl _ refl refl refl refl] m False p rest e
        have "min_loop_within d ms board player maximizing_player alpha
                (min beta (if sc < val then sc else val)) (if sc < val then sc else val)
                (if sc < val then Some m else best_move)
              = Some (min_loop ms board player maximizing_player alpha
                (min beta (if sc < val then sc else val)) (if sc < val then sc else val)
                (if sc < val then Some m else best_move))"
          by (simp add: bd undo)
        with False m show ?thesis by (simp add: call res bd undo Let_def)
      qed
    qed
  qed
qed

section \<open>The value function terminates; order facts for the pruning\<close>

lemma value_weight_child:
  assumes m: "m \<in> set (available_moves board)"
  shows "value_weight (board[m := player], other player, maximizing_player)
           < value_weight (board, player, maximizing_player)"
proof (cases "player = '' ''")
  case True
  from m have "board ! m = '' ''" by (simp add: available_moves_set)
  then have "board[m := '' ''] = board" by (metis list_update_id)
  with True show ?thesis by (simp add: value_weight_def other_not_empty)
next
  case False
  with empties_child[OF m False] show ?thesis
    by (simp add: value_weight_def other_not_empty)
qed

lemma game_value_total: "All game_value_dom"
  by (relation "measure value_weight") (simp_all add: value_weight_child)

termination game_value
  by (rule game_value_total)

declare game_value.simps [simp del]


lemma if_less_max: "(if v < s then s else v) = max v (s :: score)"
  by (auto simp: max_def)

lemma if_less_min: "(if s < v then s else v) = min v (s :: score)"
  by (auto simp: min_def)

lemma max_break:
  fixes al be v s vm R :: score
  assumes "al < be" "v \<le> al" "bounded_by s vm al be" "be \<le> max al (max v s)"
  shows "bounded_by (max v s) (max v (max vm R)) al be"
proof -
  from assms(1,2,4) have s: "be \<le> s" by (auto simp: max_def split: if_splits)
  with assms(1,2) have vs: "max v s = s" by (auto simp: max_def)
  from s assms(3) have "s \<le> vm" by (simp add: bounded_by_def)
  then have "s \<le> max v (max vm R)" by (simp add: le_max_iff_disj)
  with s assms(1) show ?thesis unfolding vs bounded_by_def by auto
qed

lemma max_continue:
  fixes al be v s vm R r :: score
  assumes ab: "al < be" and v: "v \<le> al" and s: "bounded_by s vm al be"
    and nb: "\<not> be \<le> max al (max v s)"
    and r: "bounded_by r (max (max v s) R) (max al (max v s)) be"
  shows "bounded_by r (max v (max vm R)) al be"
proof -
  from nb have sb: "s < be" by (auto simp: max_def split: if_splits)
  from r have r1: "r \<le> max al (max v s) \<Longrightarrow> max (max v s) R \<le> r"
    and r2: "max al (max v s) < r \<Longrightarrow> r < be \<Longrightarrow> r = max (max v s) R"
    and r3: "be \<le> r \<Longrightarrow> r \<le> max (max v s) R"
    by (simp_all add: bounded_by_def)
  from s have s1: "s \<le> al \<Longrightarrow> vm \<le> s" and s2: "al < s \<Longrightarrow> s = vm"
    using sb by (simp_all add: bounded_by_def)
  have p1: "max v (max vm R) \<le> r" if "r \<le> al"
  proof -
    from that have "r \<le> max al (max v s)" by (simp add: le_max_iff_disj)
    from r1[OF this] have "v \<le> r" "s \<le> r" "R \<le> r" by simp_all
    moreover from \<open>s \<le> r\<close> that have "vm \<le> s" by (intro s1) simp
    ultimately show ?thesis by simp
  qed
  have p2: "r = max v (max vm R)" if "al < r" "r < be"
  proof (cases "r \<le> max al (max v s)")
    case True
    from r1[OF True] have le: "v \<le> r" "s \<le> r" "R \<le> r" by simp_all
    from True that(1) v have "r \<le> s" by (auto simp: max_def split: if_splits)
    with le have "s = r" by simp
    with that s2 have "vm = r" by simp
    with le show ?thesis by (auto simp: max_def)
  next
    case False
    then have gt: "max al (max v s) < r" by (simp add: not_le)
    from r2[OF gt that(2)] have eq: "r = max (max v s) R" .
    from gt have "al < r" "v < r" "s < r" by (simp_all add: max_less_iff_conj)
    show ?thesis
    proof (cases "al < s")
      case True
      with s2 eq show ?thesis by (simp add: max.assoc)
    next
      case False
      then have "vm \<le> s" by (intro s1) simp
      with \<open>s < r\<close> have "vm < r" by simp
      from eq \<open>v < r\<close> \<open>s < r\<close> have "R = r" by (auto simp: max_def split: if_splits)
      with \<open>vm < r\<close> \<open>v < r\<close> show ?thesis by (auto simp: max_def)
    qed
  qed
  have p3: "r \<le> max v (max vm R)" if "be \<le> r"
  proof -
    from r3[OF that] have "r \<le> max (max v s) R" .
    moreover from that sb v ab have "v < r" "s < r" by auto
    ultimately have "r \<le> R" by (auto simp: max_def split: if_splits)
    then show ?thesis by (simp add: le_max_iff_disj)
  qed
  from p1 p2 p3 show ?thesis unfolding bounded_by_def by blast
qed


lemma min_break:
  fixes al be v s vm R :: score
  assumes "al < be" "be \<le> v" "bounded_by s vm al be" "min be (min v s) \<le> al"
  shows "bounded_by (min v s) (min v (min vm R)) al be"
proof -
  from assms(1,2,4) have s: "s \<le> al" by (auto simp: min_def split: if_splits)
  with assms(1,2) have vs: "min v s = s" by (auto simp: min_def)
  from s assms(3) have "vm \<le> s" by (simp add: bounded_by_def)
  then have "min v (min vm R) \<le> s" by (simp add: min_le_iff_disj)
  with s assms(1) show ?thesis unfolding vs bounded_by_def by auto
qed

lemma min_continue:
  fixes al be v s vm R r :: score
  assumes ab: "al < be" and v: "be \<le> v" and s: "bounded_by s vm al be"
    and nb: "\<not> min be (min v s) \<le> al"
    and r: "bounded_by r (min (min v s) R) al (min be (min v s))"
  shows "bounded_by r (min v (min vm R)) al be"
proof -
  from nb have sa: "al < s" by (auto simp: min_def split: if_splits)
  from r have r1: "r \<le> al \<Longrightarrow> min (min v s) R \<le> r"
    and r2: "al < r \<Longrightarrow> r < min be (min v s) \<Longrightarrow> r = min (min v s) R"
    and r3: "min be (min v s) \<le> r \<Longrightarrow> r \<le> min (min v s) R"
    by (simp_all add: bounded_by_def)
  from s have s1: "be \<le> s \<Longrightarrow> s \<le> vm" and s2: "s < be \<Longrightarrow> s = vm"
    using sa by (simp_all add: bounded_by_def)
  have p1: "min v (min vm R) \<le> r" if "r \<le> al"
  proof -
    from r1[OF that] have "min (min v s) R \<le> r" .
    moreover from that sa v ab have "r < v" "r < s" by auto
    ultimately have "R \<le> r" by (auto simp: min_def split: if_splits)
    then show ?thesis by (simp add: min_le_iff_disj)
  qed
  have p2: "r = min v (min vm R)" if "al < r" "r < be"
  proof (cases "min be (min v s) \<le> r")
    case True
    from r3[OF True] have le: "r \<le> v" "r \<le> s" "r \<le> R" by simp_all
    from True that(2) v have "s \<le> r" by (auto simp: min_def split: if_splits)
    with le have "s = r" by simp
    with that s2 have "vm = r" by simp
    with le show ?thesis by (auto simp: min_def)
  next
    case False
    then have lt: "r < min be (min v s)" by (simp add: not_le)
    from r2[OF that(1) lt] have eq: "r = min (min v s) R" .
    from lt have "r < be" "r < v" "r < s" by (simp_all add: min_less_iff_conj)
    show ?thesis
    proof (cases "s < be")
      case True
      with s2 eq show ?thesis by (simp add: min.assoc)
    next
      case False
      then have "s \<le> vm" by (intro s1) simp
      with \<open>r < s\<close> have "r < vm" by simp
      from eq \<open>r < v\<close> \<open>r < s\<close> have "R = r" by (auto simp: min_def split: if_splits)
      with \<open>r < vm\<close> \<open>r < v\<close> show ?thesis by (auto simp: min_def)
    qed
  qed
  have p3: "r \<le> min v (min vm R)" if "be \<le> r"
  proof -
    from that have "min be (min v s) \<le> r" by (simp add: min_le_iff_disj)
    from r3[OF this] have "r \<le> v" "r \<le> s" "r \<le> R" by simp_all
    moreover from \<open>r \<le> s\<close> that have "s \<le> vm" by (intro s1) simp
    ultimately show ?thesis by simp
  qed
  from p1 p2 p3 show ?thesis unfolding bounded_by_def by blast
qed

section \<open>The pruned search against the value of the position\<close>

lemma NegInf_least [simp]: "NegInf \<le> (x :: score)"
  by simp

lemma PosInf_greatest [simp]: "(x :: score) \<le> PosInf"
  by (cases x) simp_all

lemma max_NegInf [simp]: "max NegInf (x :: score) = x"
  by (simp add: max_def)

lemma min_PosInf [simp]: "min PosInf (x :: score) = x"
  by (auto simp: min_def intro: antisym)

lemma bounded_by_refl: "bounded_by s s al be"
  by (simp add: bounded_by_def)

lemma ab_correct_aux:
  "9 \<le> length b \<and> al < be \<longrightarrow>
     (\<exists>s mv. minimax b p mp al be = Inr ((s, mv), b) \<and> bounded_by s (game_value b p mp) al be)"
  "9 \<le> length b \<and> (\<forall>m \<in> set ms. m < length b \<and> b ! m = '' '') \<and> al < be \<and> v \<le> al \<longrightarrow>
     (\<exists>s mv. max_loop ms b p mp al be v bm = Inr ((s, mv), b) \<and>
        bounded_by s (max v (foldr max (map (\<lambda>m. game_value (b[m := p]) (other p) mp) ms) NegInf)) al be)"
  "9 \<le> length b \<and> (\<forall>m \<in> set ms. m < length b \<and> b ! m = '' '') \<and> al < be \<and> be \<le> v \<longrightarrow>
     (\<exists>s mv. min_loop ms b p mp al be v bm = Inr ((s, mv), b) \<and>
        bounded_by s (min v (foldr min (map (\<lambda>m. game_value (b[m := p]) (other p) mp) ms) PosInf)) al be)"
proof (induct b p mp al be and ms b p mp al be v bm and ms b p mp al be v bm
       rule: minimax_max_loop_min_loop.induct)
  case (1 board player maximizing_player alpha beta)
  show ?case
  proof
    assume pre: "9 \<le> length board \<and> alpha < beta"
    then have len: "9 \<le> length board" and ab: "alpha < beta" by auto
    show "\<exists>s mv. minimax board player maximizing_player alpha beta = Inr ((s, mv), board) \<and>
            bounded_by s (game_value board player maximizing_player) alpha beta"
    proof (cases "winner_of board")
      case None
      with len have cw: "check_winner board = Inr None" by (simp add: check_winner_find)
      show ?thesis
      proof (cases "player = maximizing_player")
        case True
        from 1(1)[OF cw refl True] len ab show ?thesis
          by (auto simp: minimax.simps game_value.simps[of board] cw True None available_moves_set)
      next
        case False
        from 1(2)[OF cw refl False] len ab show ?thesis
          by (auto simp: minimax.simps game_value.simps[of board] cw False None available_moves_set)
      qed
    next
      case (Some w)
      with len show ?thesis
        by (simp add: minimax.simps game_value.simps[of board] check_winner_find bounded_by_refl)
    qed
  qed
next
  case (2 board player maximizing_player alpha beta val best_move)
  show ?case by (simp add: bounded_by_refl max_absorb1)
next
  case (3 m ms board player maximizing_player alpha beta val best_move)
  show ?case
  proof
    assume pre: "9 \<le> length board \<and> (\<forall>m\<in>set (m # ms). m < length board \<and> board ! m = '' '') \<and>
      alpha < beta \<and> val \<le> alpha"
    then have m: "m < length board" "board ! m = '' ''" and len: "9 \<le> length board"
      and ab: "alpha < beta" and va: "val \<le> alpha"
      and rest: "\<forall>m\<in>set ms. m < length board \<and> board ! m = '' ''" by auto
    let ?vm = "game_value (board[m := player]) (other player) maximizing_player"
    let ?R = "foldr max (map (\<lambda>m. game_value (board[m := player]) (other player) maximizing_player) ms) NegInf"
    from 3(1) m len ab obtain sc mv where
      call: "minimax (board[m := player]) (other player) maximizing_player alpha beta
               = Inr ((sc, mv), board[m := player])"
      and sc: "bounded_by sc ?vm alpha beta"
      by fastforce
    have undo: "board[m := '' ''] = board"
      using m by (metis list_update_id)
    let ?v = "max val sc"
    let ?bm = "if val < sc then Some m else best_move"
    show "\<exists>s mv. max_loop (m # ms) board player maximizing_player alpha beta val best_move
                = Inr ((s, mv), board) \<and>
            bounded_by s (max val (foldr max (map (\<lambda>m. game_value (board[m := player]) (other player)
                 maximizing_player) (m # ms)) NegInf)) alpha beta"
    proof (cases "beta \<le> max alpha ?v")
      case True
      from max_break[OF ab va sc True, of ?R] True m show ?thesis
        by (simp add: call undo Let_def if_less_max)
    next
      case False
      then have "max alpha ?v < beta" by (simp add: not_le)
      moreover have "?v \<le> max alpha ?v" by (rule max.cobounded2)
      ultimately have "max alpha ?v < beta" "?v \<le> max alpha ?v" by blast+
      with 3(2)[OF _ call refl refl _ refl refl refl refl] m False undo len rest
      obtain s mv' where
        loop: "max_loop ms board player maximizing_player (max alpha ?v) beta ?v ?bm
                = Inr ((s, mv'), board)"
        and bd: "bounded_by s (max ?v ?R) (max alpha ?v) beta"
        by (auto simp: if_less_max)
      from max_continue[OF ab va sc False bd] loop False m show ?thesis
        by (simp add: call undo Let_def if_less_max)
    qed
  qed
next
  case (4 board player maximizing_player alpha beta val best_move)
  show ?case by (simp add: bounded_by_refl min_absorb1)
next
  case (5 m ms board player maximizing_player alpha beta val best_move)
  show ?case
  proof
    assume pre: "9 \<le> length board \<and> (\<forall>m\<in>set (m # ms). m < length board \<and> board ! m = '' '') \<and>
      alpha < beta \<and> beta \<le> val"
    then have m: "m < length board" "board ! m = '' ''" and len: "9 \<le> length board"
      and ab: "alpha < beta" and va: "beta \<le> val"
      and rest: "\<forall>m\<in>set ms. m < length board \<and> board ! m = '' ''" by auto
    let ?vm = "game_value (board[m := player]) (other player) maximizing_player"
    let ?R = "foldr min (map (\<lambda>m. game_value (board[m := player]) (other player) maximizing_player) ms) PosInf"
    from 5(1) m len ab obtain sc mv where
      call: "minimax (board[m := player]) (other player) maximizing_player alpha beta
               = Inr ((sc, mv), board[m := player])"
      and sc: "bounded_by sc ?vm alpha beta"
      by fastforce
    have undo: "board[m := '' ''] = board"
      using m by (metis list_update_id)
    let ?v = "min val sc"
    let ?bm = "if sc < val then Some m else best_move"
    show "\<exists>s mv. min_loop (m # ms) board player maximizing_player alpha beta val best_move
                = Inr ((s, mv), board) \<and>
            bounded_by s (min val (foldr min (map (\<lambda>m. game_value (board[m := player]) (other player)
                 maximizing_player) (m # ms)) PosInf)) alpha beta"
    proof (cases "min beta ?v \<le> alpha")
      case True
      from min_break[OF ab va sc True, of ?R] True m show ?thesis
        by (simp add: call undo Let_def if_less_min)
    next
      case False
      then have "alpha < min beta ?v" by (simp add: not_le)
      moreover have "min beta ?v \<le> ?v" by (rule min.cobounded2)
      ultimately have "alpha < min beta ?v" "min beta ?v \<le> ?v" by blast+
      with 5(2)[OF _ call refl refl _ refl refl refl refl] m False undo len rest
      obtain s mv' where
        loop: "min_loop ms board player maximizing_player alpha (min beta ?v) ?v ?bm
                = Inr ((s, mv'), board)"
        and bd: "bounded_by s (min ?v ?R) alpha (min beta ?v)"
        by (auto simp: if_less_min)
      from min_continue[OF ab va sc False bd] loop False m show ?thesis
        by (simp add: call undo Let_def if_less_min)
    qed
  qed
qed


section \<open>Plans bound the value; the candidates of \<open>best_move_for_ai\<close>\<close>

lemma game_value_final: "winner_of b = Some w \<Longrightarrow> game_value b p mp = final_score w mp"
  by (simp add: game_value.simps[of b] final_score_def)

lemma game_value_max:
  "winner_of b = None \<Longrightarrow>
   game_value b mp mp = foldr max (map (\<lambda>m. game_value (b[m := mp]) (other mp) mp) (available_moves b)) NegInf"
  by (simp add: game_value.simps[of b])

lemma game_value_min:
  "winner_of b = None \<Longrightarrow> p \<noteq> mp \<Longrightarrow>
   game_value b p mp = foldr min (map (\<lambda>m. game_value (b[m := p]) (other p) mp) (available_moves b)) PosInf"
  by (simp add: game_value.simps[of b])

lemma foldr_max_ge: "x \<in> set xs \<Longrightarrow> f x \<le> foldr max (map f xs) (z :: score)"
  by (induction xs) (auto simp: le_max_iff_disj)

lemma foldr_min_le: "x \<in> set xs \<Longrightarrow> foldr min (map f xs) (z :: score) \<le> f x"
  by (induction xs) (auto simp: min_le_iff_disj)

lemma foldr_max_le: "z \<le> v \<Longrightarrow> \<forall>x \<in> set xs. f x \<le> v \<Longrightarrow> foldr max (map f xs) (z :: score) \<le> v"
  by (induction xs) auto

lemma foldr_min_ge: "v \<le> z \<Longrightarrow> \<forall>x \<in> set xs. v \<le> f x \<Longrightarrow> v \<le> foldr min (map f xs) (z :: score)"
  by (induction xs) auto

lemma at_least_sound:
  "at_least v t b p mp \<Longrightarrow> v \<le> game_value b p mp"
  "at_least_each v ts ms b p mp \<Longrightarrow> \<forall>m \<in> set ms. v \<le> game_value (b[m := p]) (other p) mp"
proof (induction v t b p mp and v ts ms b p mp rule: at_least_at_least_each.induct)
  case (1 v b p mp)
  then show ?case by (auto simp: game_value_final split: option.splits)
next
  case (2 v m t b p mp)
  show ?case
  proof (cases "winner_of b")
    case None
    with 2 have "p = mp" "m \<in> set (available_moves b)"
      "v \<le> game_value (b[m := p]) (other p) mp" by auto
    then show ?thesis
      using foldr_max_ge[of m "available_moves b" "\<lambda>m. game_value (b[m := mp]) (other mp) mp" NegInf]
      by (simp add: game_value_max[OF None])
  next
    case (Some w)
    with 2 show ?thesis by (simp add: game_value_final)
  qed
next
  case (3 v ts b p mp)
  show ?case
  proof (cases "winner_of b")
    case None
    with 3 have "p \<noteq> mp" "\<forall>m \<in> set (available_moves b). v \<le> game_value (b[m := p]) (other p) mp"
      by auto
    then show ?thesis
      by (simp add: game_value_min[OF None] foldr_min_ge)
  next
    case (Some w)
    with 3 show ?thesis by (simp add: game_value_final)
  qed
qed auto

lemma at_most_sound:
  "at_most v t b p mp \<Longrightarrow> game_value b p mp \<le> v"
  "at_most_each v ts ms b p mp \<Longrightarrow> \<forall>m \<in> set ms. game_value (b[m := p]) (other p) mp \<le> v"
proof (induction v t b p mp and v ts ms b p mp rule: at_most_at_most_each.induct)
  case (1 v b p mp)
  then show ?case by (auto simp: game_value_final split: option.splits)
next
  case (2 v m t b p mp)
  show ?case
  proof (cases "winner_of b")
    case None
    with 2 have "p \<noteq> mp" "m \<in> set (available_moves b)"
      "game_value (b[m := p]) (other p) mp \<le> v" by auto
    then show ?thesis
      using foldr_min_le[of m "available_moves b" "\<lambda>m. game_value (b[m := p]) (other p) mp" PosInf]
      by (simp add: game_value_min[OF None])
  next
    case (Some w)
    with 2 show ?thesis by (simp add: game_value_final)
  qed
next
  case (3 v ts b p mp)
  show ?case
  proof (cases "winner_of b")
    case None
    with 3 have "p = mp" "\<forall>m \<in> set (available_moves b). game_value (b[m := p]) (other p) mp \<le> v"
      by auto
    then show ?thesis
      by (simp add: game_value_max[OF None] foldr_max_le)
  next
    case (Some w)
    with 3 show ?thesis by (simp add: game_value_final)
  qed
qed auto


lemma minimax_exact:
  assumes len: "9 \<le> length b"
  shows "\<exists>mv. minimax b p mp NegInf PosInf = Inr ((game_value b p mp, mv), b)"
proof -
  have w: "NegInf < PosInf" by (simp add: less_score_def)
  from ab_correct_aux(1)[of b NegInf PosInf p mp, THEN mp] len w obtain s mv where
    r: "minimax b p mp NegInf PosInf = Inr ((s, mv), b)"
    and bd: "bounded_by s (game_value b p mp) NegInf PosInf" by auto
  from minimax_result_aux(1)[of b p mp NegInf PosInf, THEN mp, OF len] r have "s \<in> scores" by auto
  then have "NegInf < s \<and> s < PosInf" by (rule scores_finite)
  with bd have "s = game_value b p mp" by (simp add: bounded_by_def)
  with r show ?thesis by auto
qed

lemma move_score_value:
  "9 \<le> length b \<Longrightarrow> move_score b ai m = game_value (b[m := ai]) (other ai) ai"
  using minimax_exact[of "b[m := ai]" "other ai" ai] by (auto simp: move_score_def)

lemma best_moves_loop_result:
  fixes f :: "nat \<Rightarrow> score" and top :: "score \<Rightarrow> nat list \<Rightarrow> score"
  defines "top \<equiv> \<lambda>bs ms. max bs (foldr max (map f ms) NegInf)"
  assumes f: "\<And>m. f m = game_value (b[m := ai]) (other ai) ai"
    and len: "9 \<le> length b"
  shows "\<forall>m \<in> set ms. m < length b \<and> b ! m = '' '' \<Longrightarrow> \<forall>m \<in> set bms. f m = bs \<Longrightarrow>
         best_moves_loop ms b ai bs bms =
           Inr ((top bs ms, filter (\<lambda>m. f m = top bs ms) (bms @ ms)), b)"
proof (induction ms arbitrary: bs bms)
  case Nil
  then show ?case by (simp add: top_def max_absorb1 filter_id_conv)
next
  case (Cons m ms)
  then have m: "m < length b" "b ! m = '' ''"
    and rest: "\<forall>m \<in> set ms. m < length b \<and> b ! m = '' ''" by auto
  from minimax_exact[of "b[m := ai]" "other ai" ai] len obtain mv where
    call: "minimax (b[m := ai]) (other ai) ai NegInf PosInf = Inr ((f m, mv), b[m := ai])"
    by (auto simp: f)
  have undo: "b[m := '' ''] = b" using m by (metis list_update_id)
  let ?F = "foldr max (map f ms) NegInf"
  consider (gt) "bs < f m" | (eq) "f m = bs" | (lt) "f m < bs" by (meson not_less_iff_gr_or_eq)
  then show ?case
  proof cases
    case gt
    have t: "top bs (m # ms) = top (f m) ms"
      using gt by (auto simp: top_def max_def)
    have ge: "f m \<le> top (f m) ms" by (simp add: top_def)
    have drop: "filter (\<lambda>x. f x = top (f m) ms) bms = []"
      using Cons.prems(2) gt ge by (auto simp: filter_empty_conv)
    from Cons.IH[OF rest, of "[m]" "f m"] have
      "best_moves_loop ms b ai (f m) [m] =
         Inr ((top (f m) ms, filter (\<lambda>x. f x = top (f m) ms) ([m] @ ms)), b)" by simp
    with gt m show ?thesis
      by (simp add: call undo Let_def t drop)
  next
    case eq
    have t: "top bs (m # ms) = top bs ms"
      using eq by (auto simp: top_def max_def)
    from Cons.IH[OF rest, of "bms @ [m]" bs] Cons.prems(2) eq have
      "best_moves_loop ms b ai bs (bms @ [m]) =
         Inr ((top bs ms, filter (\<lambda>x. f x = top bs ms) ((bms @ [m]) @ ms)), b)" by simp
    with eq m show ?thesis
      by (simp add: call undo Let_def t)
  next
    case lt
    have t: "top bs (m # ms) = top bs ms"
      using lt by (auto simp: top_def max_def)
    have ge: "bs \<le> top bs ms" by (simp add: top_def)
    with lt have ne: "f m \<noteq> top bs ms" by auto
    from Cons.IH[OF rest Cons.prems(2)] have
      "best_moves_loop ms b ai bs bms =
         Inr ((top bs ms, filter (\<lambda>x. f x = top bs ms) (bms @ ms)), b)" .
    with lt m ne show ?thesis
      by (auto simp: call undo Let_def t)
  qed
qed


lemma foldr_max_attained:
  "xs \<noteq> [] \<Longrightarrow> \<exists>x \<in> set xs. f x = foldr max (map f xs) NegInf"
proof (induction xs)
  case Nil
  then show ?case by simp
next
  case (Cons a xs)
  show ?case
  proof (cases "xs = []")
    case True
    then show ?thesis by simp
  next
    case False
    with Cons.IH obtain x where x: "x \<in> set xs" "f x = foldr max (map f xs) NegInf" by auto
    show ?thesis
    proof (cases "f a \<le> foldr max (map f xs) NegInf")
      case True
      then have "foldr max (map f (a # xs)) NegInf = f x" using x by (simp add: max_absorb2)
      with x(1) show ?thesis by auto
    next
      case False
      then have "foldr max (map f (a # xs)) NegInf = f a" by (simp add: max_absorb1)
      then show ?thesis by auto
    qed
  qed
qed

lemma best_moves_loop_value:
  assumes len: "9 \<le> length b" and w: "winner_of b = None"
  shows "best_moves_loop (available_moves b) b ai NegInf [] =
           Inr ((game_value b ai ai,
                 filter (\<lambda>m. game_value (b[m := ai]) (other ai) ai = game_value b ai ai)
                        (available_moves b)), b)"
proof -
  have "best_moves_loop (available_moves b) b ai NegInf [] =
      Inr ((max NegInf (foldr max (map (\<lambda>m. game_value (b[m := ai]) (other ai) ai) (available_moves b)) NegInf),
            filter (\<lambda>m. game_value (b[m := ai]) (other ai) ai =
                      max NegInf (foldr max (map (\<lambda>m. game_value (b[m := ai]) (other ai) ai) (available_moves b)) NegInf))
                   ([] @ available_moves b)), b)"
    by (rule best_moves_loop_result[OF refl len]) (simp_all add: available_moves_set)
  then show ?thesis by (simp add: game_value_max[OF w])
qed

lemma best_moves_value:
  assumes len: "9 \<le> length b" and w: "winner_of b = None"
  shows "best_moves b ai =
           filter (\<lambda>m. game_value (b[m := ai]) (other ai) ai = game_value b ai ai) (available_moves b)"
  by (simp add: best_moves_def best_moves_loop_value[OF len w])

lemma best_moves_nonempty:
  assumes len: "9 \<le> length b" and w: "winner_of b = None"
  shows "best_moves b ai \<noteq> []"
proof -
  from w have "available_moves b \<noteq> []"
    by (simp add: winner_of_None_empty available_moves_nonempty)
  from foldr_max_attained[OF this, of "\<lambda>m. game_value (b[m := ai]) (other ai) ai"]
  obtain m where "m \<in> set (available_moves b)"
    "game_value (b[m := ai]) (other ai) ai = game_value b ai ai"
    by (auto simp: game_value_max[OF w])
  then have "m \<in> set (best_moves b ai)" by (simp add: best_moves_value[OF len w])
  then show ?thesis by auto
qed

lemma best_move_for_ai_choice:
  assumes len: "9 \<le> length b" and w: "winner_of b = None"
    and rb: "randbelow (length (best_moves b ai)) < length (best_moves b ai)"
  shows "best_move_for_ai b ai randbelow
           = Inr (best_moves b ai ! randbelow (length (best_moves b ai)), b)"
  using rb best_moves_nonempty[OF len w, of ai]
  by (simp add: best_move_for_ai_def best_moves_loop_value[OF len w]
      best_moves_value[OF len w] random_choice_def)

lemma best_move_for_ai_member:
  assumes len: "9 \<le> length b" and w: "winner_of b = None"
    and r: "best_move_for_ai b ai randbelow = Inr (m, b')"
  shows "b' = b \<and> m \<in> set (best_moves b ai)"
proof -
  from r have "randbelow (length (best_moves b ai)) < length (best_moves b ai)"
    by (auto simp: best_move_for_ai_def best_moves_loop_value[OF len w]
        best_moves_value[OF len w] random_choice_def split: if_splits)
  then have rb: "randbelow (length (best_moves b ai)) < length (best_moves b ai)" .
  from best_move_for_ai_choice[where randbelow=randbelow and ai=ai, OF len w rb] r rb show ?thesis by auto
qed

lemma negate_max: "negate (max a b) = min (negate a) (negate b)"
  by (cases a; cases b) (auto simp: max_def min_def)

lemma negate_min: "negate (min a b) = max (negate a) (negate b)"
  by (cases a; cases b) (auto simp: max_def min_def)

lemma negate_foldr_max:
  "negate (foldr max (map f xs) NegInf) = foldr min (map (\<lambda>x. negate (f x)) xs) PosInf"
  by (induction xs) (simp_all add: negate_max)

lemma negate_foldr_min:
  "negate (foldr min (map f xs) PosInf) = foldr max (map (\<lambda>x. negate (f x)) xs) NegInf"
  by (induction xs) (simp_all add: negate_min)

section \<open>What \<open>check_winner\<close> reports on a game board\<close>


lemma win_line_in_range:
  "l \<in> set WIN_LINES \<Longrightarrow> l = (a, b, c) \<Longrightarrow> a < 9 \<and> b < 9 \<and> c < 9"
  by (auto simp: WIN_LINES_def)

lemma line_full_iff_filled:
  assumes "valid_board b" "l \<in> set WIN_LINES"
  shows "line_full b l = (line_filled b l ''X'' \<or> line_filled b l ''O'')"
proof -
  obtain x y z where l: "l = (x, y, z)" by (cases l) auto
  with assms(2) have "x < 9" by (auto dest: win_line_in_range)
  with assms(1) have "x < length b" by (simp add: valid_board_def)
  then have "b ! x \<in> set b" by (rule nth_mem)
  with assms(1) have "b ! x \<in> {'' '', ''X'', ''O''}"
    by (auto simp: valid_board_def)
  then show ?thesis
    by (auto simp: l line_full_def line_filled_def)
qed

lemma filled_cases:
  assumes "valid_board b" "l \<in> set WIN_LINES" "s \<in> {''X'', ''O''}"
  shows "line_full b l = (line_filled b l s \<or> line_filled b l (other s))"
  using assms line_full_iff_filled[OF assms(1,2)] by (auto simp: other_def)

lemma winner_of_symbol:
  assumes v: "valid_board b" and s: "s \<in> {''X'', ''O''}"
  shows "(winner_of b = Some s) =
         (\<exists>i<length WIN_LINES. line_filled b (WIN_LINES ! i) s \<and>
            (\<forall>j<i. \<not> line_filled b (WIN_LINES ! j) (other s)))"
proof
  assume w: "winner_of b = Some s"
  from s have sD: "s \<noteq> ''D''" by auto
  from w sD obtain x y z where f: "find (line_full b) WIN_LINES = Some (x, y, z)" and bx: "b ! x = s"
    by (auto simp: winner_of_def split: option.splits if_splits)
  from f obtain i where i: "i < length WIN_LINES" "line_full b (WIN_LINES ! i)"
    "(x, y, z) = WIN_LINES ! i" "\<forall>j<i. \<not> line_full b (WIN_LINES ! j)"
    by (auto simp: find_Some_iff)
  from i(3) have eq: "WIN_LINES ! i = (x, y, z)" by simp
  from i(2) bx have "line_filled b (WIN_LINES ! i) s"
    unfolding eq by (simp add: line_full_def line_filled_def)
  moreover have "\<forall>j<i. \<not> line_filled b (WIN_LINES ! j) (other s)"
  proof (intro allI impI)
    fix j assume "j < i"
    with i have nf: "\<not> line_full b (WIN_LINES ! j)" and "WIN_LINES ! j \<in> set WIN_LINES" by auto
    with filled_cases[OF v _ s] show "\<not> line_filled b (WIN_LINES ! j) (other s)" by blast
  qed
  ultimately show "\<exists>i<length WIN_LINES. line_filled b (WIN_LINES ! i) s \<and>
            (\<forall>j<i. \<not> line_filled b (WIN_LINES ! j) (other s))"
    using i(1) by blast
next
  assume "\<exists>i<length WIN_LINES. line_filled b (WIN_LINES ! i) s \<and>
            (\<forall>j<i. \<not> line_filled b (WIN_LINES ! j) (other s))"
  then obtain i where i: "i < length WIN_LINES" "line_filled b (WIN_LINES ! i) s"
    "\<forall>j<i. \<not> line_filled b (WIN_LINES ! j) (other s)" by blast
  from i(1) have mem: "WIN_LINES ! i \<in> set WIN_LINES" by simp
  with i(2) filled_cases[OF v mem s] have full: "line_full b (WIN_LINES ! i)" by blast
  with mem have "find (line_full b) WIN_LINES \<noteq> None"
    unfolding find_None_iff by blast
  then obtain l where f: "find (line_full b) WIN_LINES = Some l" by auto
  then obtain k where k: "k < length WIN_LINES" "line_full b (WIN_LINES ! k)"
    "l = WIN_LINES ! k" "\<forall>j<k. \<not> line_full b (WIN_LINES ! j)"
    by (auto simp: find_Some_iff)
  have "k \<le> i" using k(4) full by (meson not_le)
  from k(1) have memk: "WIN_LINES ! k \<in> set WIN_LINES" by simp
  have "line_filled b (WIN_LINES ! k) s"
  proof (cases "k = i")
    case True
    with i(2) show ?thesis by simp
  next
    case False
    with \<open>k \<le> i\<close> have "k < i" by simp
    with i(3) have "\<not> line_filled b (WIN_LINES ! k) (other s)" by blast
    with k(2) filled_cases[OF v memk s] show ?thesis by blast
  qed
  then show "winner_of b = Some s"
    using f k(3) by (cases l) (auto simp: winner_of_def line_filled_def)
qed

lemma winner_of_none_found:
  assumes v: "valid_board b"
  shows "(find (line_full b) WIN_LINES = None) =
         (\<forall>l \<in> set WIN_LINES. \<not> line_filled b l ''X'' \<and> \<not> line_filled b l ''O'')"
  using line_full_iff_filled[OF v] by (auto simp: find_None_iff)

lemma winner_of_found_symbol:
  assumes v: "valid_board b" and f: "find (line_full b) WIN_LINES = Some (x, y, z)"
  shows "b ! x \<in> {''X'', ''O''}"
proof -
  from f have mem: "(x, y, z) \<in> set WIN_LINES" and full: "line_full b (x, y, z)"
    by (auto simp: find_Some_iff)
  from line_full_iff_filled[OF v mem] full show ?thesis
    by (auto simp: line_filled_def)
qed

lemma winner_of_draw:
  assumes v: "valid_board b"
  shows "(winner_of b = Some ''D'') =
         ('' '' \<notin> set b \<and> (\<forall>l \<in> set WIN_LINES. \<not> line_filled b l ''X'' \<and> \<not> line_filled b l ''O''))"
proof (cases "find (line_full b) WIN_LINES")
  case None
  with winner_of_none_found[OF v] show ?thesis by (simp add: winner_of_def)
next
  case (Some l)
  obtain x y z where l: "l = (x, y, z)" by (cases l) auto
  from winner_of_found_symbol[OF v Some[unfolded l]] have "b ! x \<noteq> ''D''" by auto
  moreover from Some winner_of_none_found[OF v]
  have "\<not> (\<forall>l \<in> set WIN_LINES. \<not> line_filled b l ''X'' \<and> \<not> line_filled b l ''O'')" by simp
  ultimately show ?thesis using Some by (simp add: winner_of_def l)
qed

lemma winner_of_in_progress:
  assumes v: "valid_board b"
  shows "(winner_of b = None) =
         ('' '' \<in> set b \<and> (\<forall>l \<in> set WIN_LINES. \<not> line_filled b l ''X'' \<and> \<not> line_filled b l ''O''))"
proof (cases "find (line_full b) WIN_LINES")
  case None
  with winner_of_none_found[OF v] show ?thesis by (simp add: winner_of_def)
next
  case (Some l)
  obtain x y z where l: "l = (x, y, z)" by (cases l) auto
  from Some winner_of_none_found[OF v]
  have "\<not> (\<forall>l \<in> set WIN_LINES. \<not> line_filled b l ''X'' \<and> \<not> line_filled b l ''O'')" by simp
  then show ?thesis using Some by (simp add: winner_of_def l)
qed

lemma winner_of_range:
  assumes v: "valid_board b"
  shows "winner_of b \<in> {None, Some ''D'', Some ''X'', Some ''O''}"
proof (cases "find (line_full b) WIN_LINES")
  case None
  then show ?thesis by (simp add: winner_of_def)
next
  case (Some l)
  obtain x y z where l: "l = (x, y, z)" by (cases l) auto
  from winner_of_found_symbol[OF v Some[unfolded l]] Some show ?thesis
    by (auto simp: winner_of_def l)
qed

lemma valid_check_winner: "valid_board b \<Longrightarrow> check_winner b = Inr (winner_of b)"
  by (simp add: valid_board_def check_winner_find)

section \<open>Optimal play\<close>

lemma valid_child:
  assumes "valid_board b" "p \<in> {''X'', ''O''}"
  shows "valid_board (b[m := p])"
proof -
  have "set (b[m := p]) \<subseteq> insert p (set b)" by (rule set_update_subset_insert)
  with assms show ?thesis by (auto simp: valid_board_def)
qed

lemma final_score_zero_sum:
  "w \<in> {''D'', ''X'', ''O''} \<Longrightarrow> final_score w ''O'' = negate (final_score w ''X'')"
  by (auto simp: final_score_def)

lemma game_value_zero_sum:
  "valid_board b \<Longrightarrow> p \<in> {''X'', ''O''} \<Longrightarrow>
   game_value b p ''O'' = negate (game_value b p ''X'')"
proof (induction "empties b" arbitrary: b p rule: less_induct)
  case less
  show ?case
  proof (cases "winner_of b")
    case (Some w)
    with winner_of_range[OF less.prems(1)] have "w \<in> {''D'', ''X'', ''O''}" by auto
    then show ?thesis by (simp add: game_value_final[OF Some] final_score_zero_sum)
  next
    case None
    have p_ne: "p \<noteq> '' ''" using less.prems(2) by auto
    have IH: "game_value (b[m := p]) (other p) ''O'' = negate (game_value (b[m := p]) (other p) ''X'')"
      if "m \<in> set (available_moves b)" for m
    proof (rule less.hyps)
      from empties_child[OF that p_ne] show "empties (b[m := p]) < empties b" by simp
      show "valid_board (b[m := p])" by (rule valid_child[OF less.prems])
      show "other p \<in> {''X'', ''O''}" by (simp add: other_def)
    qed
    from less.prems(2) consider "p = ''X''" | "p = ''O''" by auto
    then show ?thesis
    proof cases
      case 1
      have "game_value b ''X'' ''O'' =
              foldr min (map (\<lambda>m. game_value (b[m := ''X'']) (other ''X'') ''O'') (available_moves b)) PosInf"
        by (rule game_value_min[OF None]) simp
      also have "\<dots> = foldr min (map (\<lambda>m. negate (game_value (b[m := ''X'']) (other ''X'') ''X''))
                              (available_moves b)) PosInf"
        using IH unfolding 1 by (simp cong: map_cong)
      also have "\<dots> = negate (game_value b ''X'' ''X'')"
        by (simp add: game_value_max[OF None] negate_foldr_max)
      finally show ?thesis by (simp add: 1)
    next
      case 2
      have "game_value b ''O'' ''O'' =
              foldr max (map (\<lambda>m. game_value (b[m := ''O'']) (other ''O'') ''O'') (available_moves b)) NegInf"
        by (rule game_value_max[OF None])
      also have "\<dots> = foldr max (map (\<lambda>m. negate (game_value (b[m := ''O'']) (other ''O'') ''X''))
                              (available_moves b)) NegInf"
        using IH unfolding 2 by (simp cong: map_cong)
      also have "\<dots> = negate (game_value b ''O'' ''X'')"
        using game_value_min[OF None, of "''O''" "''X''"] by (simp add: negate_foldr_min)
      finally show ?thesis by (simp add: 2)
    qed
  qed
qed

lemma negate_negate [simp]: "negate (negate s) = s"
  by (cases s) simp_all

lemma valid_winner: "valid_board b \<Longrightarrow> check_winner b = Inr w \<Longrightarrow> winner_of b = w"
  by (simp add: valid_check_winner)

lemma valid_len: "valid_board b \<Longrightarrow> 9 \<le> length b"
  by (simp add: valid_board_def)

text \<open>After any reply of the opponent the value has not dropped.\<close>
lemma opponent_move_keeps:
  assumes w: "winner_of b = None" and p: "p \<noteq> mp" and m: "m \<in> set (available_moves b)"
  shows "game_value b p mp \<le> game_value (b[m := p]) (other p) mp"
  using foldr_min_le[OF m, of "\<lambda>m. game_value (b[m := p]) (other p) mp" PosInf]
  by (simp add: game_value_min[OF w p])

lemma ai_move_optimal:
  assumes v: "valid_board b" and cw: "check_winner b = Inr None"
    and r: "best_move_for_ai b ai randbelow = Inr (m, b')"
  shows "b' = b \<and> m \<in> set (available_moves b) \<and>
         game_value (b[m := ai]) (other ai) ai = game_value b ai ai"
proof -
  from v cw have w: "winner_of b = None" by (rule valid_winner)
  from best_move_for_ai_member[OF valid_len[OF v] w r]
  show ?thesis by (simp add: best_moves_value[OF valid_len[OF v] w])
qed

lemma never_loses_general:
  assumes "ai_game ais b p w" "''X'' \<in> ais" "valid_board b" "p \<in> {''X'', ''O''}"
    "Fin 0 \<le> game_value b p ''X''"
  shows "w \<noteq> ''O''"
  using assms
proof (induction rule: ai_game.induct)
  case (game_over b w p)
  then have "winner_of b = Some w" by (simp add: valid_winner)
  with game_over show ?case
    by (auto simp: game_value_final final_score_def)
next
  case (ai_turn b p randbelow m b' w)
  from ai_move_optimal[OF ai_turn.prems(2) ai_turn.hyps(1) ai_turn.hyps(3)]
  have b': "b' = b" and m: "m \<in> set (available_moves b)"
    and opt: "game_value (b[m := p]) (other p) p = game_value b p p" by auto
  from ai_turn.prems(2) ai_turn.hyps(1) have wn: "winner_of b = None" by (rule valid_winner)
  have "Fin 0 \<le> game_value (b[m := p]) (other p) ''X''"
  proof (cases "p = ''X''")
    case True
    with opt ai_turn.prems(4) show ?thesis by simp
  next
    case False
    from opponent_move_keeps[OF wn False m] ai_turn.prems(4) show ?thesis by simp
  qed
  moreover have "valid_board (b[m := p])" by (rule valid_child[OF ai_turn.prems(2,3)])
  moreover have "other p \<in> {''X'', ''O''}" by (simp add: other_def)
  ultimately show ?case using ai_turn.IH ai_turn.prems(1) by (simp add: b')
next
  case (free_turn b p m w)
  from free_turn.prems(2) free_turn.hyps(1) have wn: "winner_of b = None" by (rule valid_winner)
  from free_turn.hyps(2) free_turn.prems(1) have px: "p \<noteq> ''X''" by auto
  from free_turn.hyps(3,4) have m: "m \<in> set (available_moves b)" by (simp add: available_moves_set)
  from opponent_move_keeps[OF wn px m] free_turn.prems(4)
  have "Fin 0 \<le> game_value (b[m := p]) (other p) ''X''" by simp
  moreover have "valid_board (b[m := p])" by (rule valid_child[OF free_turn.prems(2,3)])
  moreover have "other p \<in> {''X'', ''O''}" by (simp add: other_def)
  ultimately show ?case using free_turn.IH free_turn.prems(1) by simp
qed

lemma always_draws_general:
  assumes "ai_game {''X'', ''O''} b p w" "valid_board b" "p \<in> {''X'', ''O''}"
    "game_value b p ''X'' = Fin 0"
  shows "w = ''D''"
  using assms
proof (induction rule: ai_game.induct)
  case (game_over b w p)
  then have wn: "winner_of b = Some w" by (simp add: valid_winner)
  with winner_of_range[OF game_over.prems(1)] have "w \<in> {''D'', ''X'', ''O''}" by auto
  with game_over.prems(3) wn show ?case
    by (auto simp: game_value_final final_score_def)
next
  case (ai_turn b p randbelow m b' w)
  from ai_move_optimal[OF ai_turn.prems(1) ai_turn.hyps(1) ai_turn.hyps(3)]
  have b': "b' = b" and m: "m \<in> set (available_moves b)"
    and opt: "game_value (b[m := p]) (other p) p = game_value b p p" by auto
  have vc: "valid_board (b[m := p])" by (rule valid_child[OF ai_turn.prems(1,2)])
  have oc: "other p \<in> {''X'', ''O''}" by (simp add: other_def)
  have "game_value (b[m := p]) (other p) ''X'' = Fin 0"
  proof (cases "p = ''X''")
    case True
    with opt ai_turn.prems(3) show ?thesis by simp
  next
    case False
    with ai_turn.prems(2) have p: "p = ''O''" by auto
    from opt have "negate (game_value (b[m := p]) (other p) ''X'') = negate (game_value b p ''X'')"
      unfolding p
      using game_value_zero_sum[OF vc oc] game_value_zero_sum[OF ai_turn.prems(1,2)]
      by (simp add: p)
    then have "game_value (b[m := p]) (other p) ''X'' = game_value b p ''X''"
      by (metis negate_negate)
    with ai_turn.prems(3) show ?thesis by simp
  qed
  with vc oc show ?case using ai_turn.IH by (simp add: b')
next
  case (free_turn b p m w)
  then show ?case by auto
qed

lemma game_exists:
  "valid_board b \<Longrightarrow> p \<in> {''X'', ''O''} \<Longrightarrow> \<exists>w. ai_game ais b p w"
proof (induction "empties b" arbitrary: b p rule: less_induct)
  case less
  show ?case
  proof (cases "winner_of b")
    case (Some w)
    with less.prems(1) have "check_winner b = Inr (Some w)" by (simp add: valid_check_winner)
    then show ?thesis by (auto intro: ai_game.game_over)
  next
    case None
    with less.prems(1) have cw: "check_winner b = Inr None" by (simp add: valid_check_winner)
    have p_ne: "p \<noteq> '' ''" using less.prems(2) by auto
    have next_game: "\<exists>w. ai_game ais (b[m := p]) (other p) w" if "m \<in> set (available_moves b)" for m
    proof (rule less.hyps)
      from empties_child[OF that p_ne] show "empties (b[m := p]) < empties b" by simp
      show "valid_board (b[m := p])" by (rule valid_child[OF less.prems])
      show "other p \<in> {''X'', ''O''}" by (simp add: other_def)
    qed
    show ?thesis
    proof (cases "p \<in> ais")
      case True
      from None have e: "'' '' \<in> set b" by (rule winner_of_None_empty)
      from best_move_for_ai_returns[OF valid_len[OF less.prems(1)] e, of "\<lambda>n. 0" p]
      obtain m where r: "best_move_for_ai b p (\<lambda>n. 0) = Inr (m, b)" by auto
      from ai_move_optimal[OF less.prems(1) cw r] have "m \<in> set (available_moves b)" by simp
      from next_game[OF this] obtain w where "ai_game ais (b[m := p]) (other p) w" ..
      from ai_game.ai_turn[OF cw True r this] show ?thesis ..
    next
      case False
      from None have "available_moves b \<noteq> []"
        by (simp add: winner_of_None_empty available_moves_nonempty)
      then obtain m where m: "m \<in> set (available_moves b)" by (cases "available_moves b") auto
      from next_game[OF m] obtain w where g: "ai_game ais (b[m := p]) (other p) w" ..
      from m have "m < length b" "b ! m = '' ''" by (simp_all add: available_moves_set)
      from ai_game.free_turn[OF cw False this g] show ?thesis ..
    qed
  qed
qed


section \<open>The empty board\<close>

lemma hold_0: "at_least (Fin 0) (hold_plans ! 0) (fresh_board[0 := ''X'']) ''O'' ''X''"
  by code_simp

lemma reply_0: "at_most (Fin 0) (reply_plans ! 0) (fresh_board[0 := ''X'']) ''O'' ''X''"
  by code_simp

lemma hold_1: "at_least (Fin 0) (hold_plans ! 1) (fresh_board[1 := ''X'']) ''O'' ''X''"
  by code_simp

lemma reply_1: "at_most (Fin 0) (reply_plans ! 1) (fresh_board[1 := ''X'']) ''O'' ''X''"
  by code_simp

lemma hold_2: "at_least (Fin 0) (hold_plans ! 2) (fresh_board[2 := ''X'']) ''O'' ''X''"
  by code_simp

lemma reply_2: "at_most (Fin 0) (reply_plans ! 2) (fresh_board[2 := ''X'']) ''O'' ''X''"
  by code_simp

lemma hold_3: "at_least (Fin 0) (hold_plans ! 3) (fresh_board[3 := ''X'']) ''O'' ''X''"
  by code_simp

lemma reply_3: "at_most (Fin 0) (reply_plans ! 3) (fresh_board[3 := ''X'']) ''O'' ''X''"
  by code_simp

lemma hold_4: "at_least (Fin 0) (hold_plans ! 4) (fresh_board[4 := ''X'']) ''O'' ''X''"
  by code_simp

lemma reply_4: "at_most (Fin 0) (reply_plans ! 4) (fresh_board[4 := ''X'']) ''O'' ''X''"
  by code_simp

lemma hold_5: "at_least (Fin 0) (hold_plans ! 5) (fresh_board[5 := ''X'']) ''O'' ''X''"
  by code_simp

lemma reply_5: "at_most (Fin 0) (reply_plans ! 5) (fresh_board[5 := ''X'']) ''O'' ''X''"
  by code_simp

lemma hold_6: "at_least (Fin 0) (hold_plans ! 6) (fresh_board[6 := ''X'']) ''O'' ''X''"
  by code_simp

lemma reply_6: "at_most (Fin 0) (reply_plans ! 6) (fresh_board[6 := ''X'']) ''O'' ''X''"
  by code_simp

lemma hold_7: "at_least (Fin 0) (hold_plans ! 7) (fresh_board[7 := ''X'']) ''O'' ''X''"
  by code_simp

lemma reply_7: "at_most (Fin 0) (reply_plans ! 7) (fresh_board[7 := ''X'']) ''O'' ''X''"
  by code_simp

lemma hold_8: "at_least (Fin 0) (hold_plans ! 8) (fresh_board[8 := ''X'']) ''O'' ''X''"
  by code_simp

lemma reply_8: "at_most (Fin 0) (reply_plans ! 8) (fresh_board[8 := ''X'']) ''O'' ''X''"
  by code_simp


lemma fresh_moves: "available_moves fresh_board = [0, 1, 2, 3, 4, 5, 6, 7, 8]"
  by code_simp

lemma fresh_in_progress: "winner_of fresh_board = None"
  by code_simp

lemma fresh_valid: "valid_board fresh_board"
  by (simp add: valid_board_def fresh_board_def)

lemma other_X: "other ''X'' = ''O''"
  by (simp add: other_def)

lemma opening_value:
  assumes m: "m \<in> set (available_moves fresh_board)"
  shows "game_value (fresh_board[m := ''X'']) (other ''X'') ''X'' = Fin 0"
proof -
  have "at_least (Fin 0) (hold_plans ! m) (fresh_board[m := ''X'']) ''O'' ''X'' \<and>
        at_most (Fin 0) (reply_plans ! m) (fresh_board[m := ''X'']) ''O'' ''X''"
    using m hold_0 hold_1 hold_2 hold_3 hold_4 hold_5 hold_6 hold_7 hold_8
      reply_0 reply_1 reply_2 reply_3 reply_4 reply_5 reply_6 reply_7 reply_8
    unfolding fresh_moves by auto
  then have "Fin 0 \<le> game_value (fresh_board[m := ''X'']) ''O'' ''X''"
    and "game_value (fresh_board[m := ''X'']) ''O'' ''X'' \<le> Fin 0"
    by (auto dest: at_least_sound(1) at_most_sound(1))
  then show ?thesis by (simp add: other_X)
qed

lemma fresh_value: "game_value fresh_board ''X'' ''X'' = Fin 0"
proof -
  have "map (\<lambda>m. game_value (fresh_board[m := ''X'']) (other ''X'') ''X'') (available_moves fresh_board)
          = map (\<lambda>m. Fin 0) (available_moves fresh_board)"
    by (rule map_cong) (simp_all add: opening_value)
  then show ?thesis
    by (simp add: game_value_max[OF fresh_in_progress] fresh_moves)
qed

lemma fresh_best_moves: "best_moves fresh_board ''X'' = [0, 1, 2, 3, 4, 5, 6, 7, 8]"
proof -
  have "best_moves fresh_board ''X'' =
          filter (\<lambda>m. game_value (fresh_board[m := ''X'']) (other ''X'') ''X'' = Fin 0)
                 (available_moves fresh_board)"
    using best_moves_value[OF valid_len[OF fresh_valid] fresh_in_progress, of "''X''"]
    by (simp add: fresh_value)
  also have "\<dots> = available_moves fresh_board"
    by (simp add: filter_id_conv opening_value)
  finally show ?thesis by (simp add: fresh_moves)
qed

lemma available_moves_distinct: "distinct (available_moves b)"
  unfolding available_moves_def
  by (rule distinct_map_filter) (simp add: map_fst_enumerate)

lemma best_moves_maximal:
  assumes len: "9 \<le> length b" and w: "winner_of b = None"
  shows "m \<in> set (best_moves b ai) \<longleftrightarrow>
           m \<in> set (available_moves b) \<and>
           (\<forall>m' \<in> set (available_moves b). move_score b ai m' \<le> move_score b ai m)"
proof -
  let ?f = "\<lambda>m. game_value (b[m := ai]) (other ai) ai"
  have top: "game_value b ai ai = foldr max (map ?f (available_moves b)) NegInf"
    by (rule game_value_max[OF w])
  have "?f m = game_value b ai ai \<longleftrightarrow> (\<forall>m' \<in> set (available_moves b). ?f m' \<le> ?f m)"
    if m: "m \<in> set (available_moves b)"
  proof
    assume "?f m = game_value b ai ai"
    then show "\<forall>m' \<in> set (available_moves b). ?f m' \<le> ?f m"
      using foldr_max_ge[of _ "available_moves b" ?f NegInf] by (simp add: top)
  next
    assume "\<forall>m' \<in> set (available_moves b). ?f m' \<le> ?f m"
    then have "foldr max (map ?f (available_moves b)) NegInf \<le> ?f m"
      by (intro foldr_max_le) simp_all
    moreover have "?f m \<le> foldr max (map ?f (available_moves b)) NegInf"
      by (rule foldr_max_ge[OF m])
    ultimately show "?f m = game_value b ai ai" by (simp add: top)
  qed
  then show ?thesis
    by (auto simp: best_moves_value[OF len w] move_score_value[OF len])
qed


section \<open>Claims about the search\<close>

text \<open>
  Claim C3 (board restoration). Whenever \<open>minimax\<close> returns, the board it hands back is
  the board it was given, for every board, player, maximizing symbol, \<open>alpha\<close> and
  \<open>beta\<close>; the same holds for \<open>best_move_for_ai\<close>. Every cell written during the
  search has been set back to \<open>" "\<close>. On a board of nine cells \<open>minimax\<close> does return.
\<close>

theorem board_restored:
  "(minimax b p mp al be = Inr (r, b') \<longrightarrow> b' = b) \<and>
   (best_move_for_ai b ai rb = Inr (mv, b'') \<longrightarrow> b'' = b) \<and>
   (length b = 9 \<longrightarrow> (\<exists>r. minimax b p mp al be = Inr (r, b)))"
proof (intro conjI impI)
  assume "minimax b p mp al be = Inr (r, b')"
  then show "b' = b" by (rule minimax_restores)
next
  assume "best_move_for_ai b ai rb = Inr (mv, b'')"
  then obtain r where "best_moves_loop (available_moves b) b ai NegInf [] = Inr (r, b'')"
    by (auto simp: best_move_for_ai_def split: sum.splits)
  then show "b'' = b"
    by (rule best_moves_loop_restores) (simp add: available_moves_set)
next
  assume "length b = 9"
  then show "\<exists>r. minimax b p mp al be = Inr (r, b)"
    using minimax_returns[of b p mp al be] by simp
qed

theorem board_restored_witness:
  "minimax [''X'', ''X'', '' '', ''O'', ''O'', '' '', '' '', '' '', '' ''] ''X'' ''X'' NegInf PosInf
     = Inr ((Fin 1, Some 2), [''X'', ''X'', '' '', ''O'', ''O'', '' '', '' '', '' '', '' '']) \<and>
   best_move_for_ai [''X'', ''X'', '' '', ''O'', ''O'', '' '', '' '', '' '', '' ''] ''X'' (\<lambda>n. 0)
     = Inr (2, [''X'', ''X'', '' '', ''O'', ''O'', '' '', '' '', '' '', '' '']) \<and>
   length [''X'', ''X'', '' '', ''O'', ''O'', '' '', '' '', '' '', '' ''] = 9"
proof -
  let ?B = "[''X'', ''X'', '' '', ''O'', ''O'', '' '', '' '', '' '', '' '']"
  have e1: "minimax ?B ''X'' ''X'' NegInf PosInf = Inr ((Fin 1, Some 2), ?B)"
    by code_simp
  have e2: "best_move_for_ai ?B ''X'' (\<lambda>n. 0) = Inr (2, ?B)"
    by code_simp
  from board_restored[of ?B "''X''" "''X''" NegInf PosInf "(Fin 1, Some 2)" ?B "''X''" "\<lambda>n. 0" 2 ?B] e1 e2
  show ?thesis by simp
qed

text \<open>
  Claim C5 (terminal boards). When \<open>check_winner\<close> reports an outcome, \<open>minimax\<close>
  returns at once, with no move: score 0 for the draw marker \<open>"D"\<close>, +1 when the winner
  is the maximizing symbol and -1 otherwise, whatever the player to move and the bounds.
\<close>

theorem minimax_terminal:
  "check_winner b = Inr (Some winner) \<Longrightarrow>
   minimax b p mp al be =
     Inr ((if winner = ''D'' then Fin 0 else if winner = mp then Fin 1 else Fin (- 1), None), b)"
  by (simp add: minimax.simps)

theorem minimax_terminal_witness:
  "check_winner [''X'', ''X'', ''X'', ''O'', ''O'', '' '', '' '', '' '', '' ''] = Inr (Some ''X'') \<and>
   minimax [''X'', ''X'', ''X'', ''O'', ''O'', '' '', '' '', '' '', '' ''] ''O'' ''X'' NegInf PosInf
     = Inr ((Fin 1, None), [''X'', ''X'', ''X'', ''O'', ''O'', '' '', '' '', '' '', '' ''])"
proof -
  have cw: "check_winner [''X'', ''X'', ''X'', ''O'', ''O'', '' '', '' '', '' '', '' ''] = Inr (Some ''X'')"
    by (simp add: check_winner_def WIN_LINES_def line_won_def getitem_def)
  from minimax_terminal[OF cw, of "''O''" "''X''" NegInf PosInf] cw show ?thesis by simp
qed

text \<open>
  Claim C2 (terminal classification), as the code has it. On a game board \<open>check_winner\<close>
  returns the symbol \<open>s\<close> exactly when some line of \<open>WIN_LINES\<close> is filled with
  \<open>s\<close> and no line declared before it is filled with the other symbol: the first
  filled line in declared order decides. It returns the draw marker \<open>"D"\<close> exactly when
  no cell is empty and no line is filled, and \<open>None\<close> (game in progress) exactly when
  some cell is empty and no line is filled; there is no other result. The full board
  \<open>[X,O,X,O,X,O,O,X,O]\<close> is a draw.
\<close>

theorem check_winner_classifies:
  assumes "valid_board b"
  shows "(s \<in> {''X'', ''O''} \<longrightarrow>
            (check_winner b = Inr (Some s)) =
            (\<exists>i<length WIN_LINES. line_filled b (WIN_LINES ! i) s \<and>
               (\<forall>j<i. \<not> line_filled b (WIN_LINES ! j) (other s)))) \<and>
         (check_winner b = Inr (Some ''D'')) =
            ('' '' \<notin> set b \<and>
             (\<forall>l \<in> set WIN_LINES. \<not> line_filled b l ''X'' \<and> \<not> line_filled b l ''O'')) \<and>
         (check_winner b = Inr None) =
            ('' '' \<in> set b \<and>
             (\<forall>l \<in> set WIN_LINES. \<not> line_filled b l ''X'' \<and> \<not> line_filled b l ''O'')) \<and>
         check_winner b \<in> {Inr None, Inr (Some ''D''), Inr (Some ''X''), Inr (Some ''O'')} \<and>
         check_winner [''X'', ''O'', ''X'', ''O'', ''X'', ''O'', ''O'', ''X'', ''O''] = Inr (Some ''D'')"
proof (intro conjI impI)
  assume "s \<in> {''X'', ''O''}"
  with assms show "(check_winner b = Inr (Some s)) =
            (\<exists>i<length WIN_LINES. line_filled b (WIN_LINES ! i) s \<and>
               (\<forall>j<i. \<not> line_filled b (WIN_LINES ! j) (other s)))"
    by (simp add: valid_check_winner winner_of_symbol)
next
  from assms show "(check_winner b = Inr (Some ''D'')) =
            ('' '' \<notin> set b \<and>
             (\<forall>l \<in> set WIN_LINES. \<not> line_filled b l ''X'' \<and> \<not> line_filled b l ''O''))"
    by (simp add: valid_check_winner winner_of_draw)
next
  from assms show "(check_winner b = Inr None) =
            ('' '' \<in> set b \<and>
             (\<forall>l \<in> set WIN_LINES. \<not> line_filled b l ''X'' \<and> \<not> line_filled b l ''O''))"
    by (simp add: valid_check_winner winner_of_in_progress)
next
  from winner_of_range[OF assms] assms
  show "check_winner b \<in> {Inr None, Inr (Some ''D''), Inr (Some ''X''), Inr (Some ''O'')}"
    by (auto simp: valid_check_winner)
next
  show "check_winner [''X'', ''O'', ''X'', ''O'', ''X'', ''O'', ''O'', ''X'', ''O''] = Inr (Some ''D'')"
    by (simp add: check_winner_def WIN_LINES_def line_won_def getitem_def)
qed

theorem check_winner_classifies_witness:
  "valid_board [''X'', ''X'', ''X'', ''O'', ''O'', '' '', '' '', '' '', '' ''] \<and>
   line_filled [''X'', ''X'', ''X'', ''O'', ''O'', '' '', '' '', '' '', '' ''] (WIN_LINES ! 0) ''X'' \<and>
   check_winner [''X'', ''X'', ''X'', ''O'', ''O'', '' '', '' '', '' '', '' ''] = Inr (Some ''X'')"
proof -
  let ?B = "[''X'', ''X'', ''X'', ''O'', ''O'', '' '', '' '', '' '', '' '']"
  have v: "valid_board ?B" by (simp add: valid_board_def)
  have f: "line_filled ?B (WIN_LINES ! 0) ''X''"
    by (simp add: WIN_LINES_def line_filled_def)
  have "\<exists>i<length WIN_LINES. line_filled ?B (WIN_LINES ! i) ''X'' \<and>
          (\<forall>j<i. \<not> line_filled ?B (WIN_LINES ! j) (other ''X''))"
  proof (intro exI[of _ 0] conjI)
    show "0 < length WIN_LINES" by (simp add: WIN_LINES_def)
    show "line_filled ?B (WIN_LINES ! 0) ''X''" by (rule f)
    show "\<forall>j<0. \<not> line_filled ?B (WIN_LINES ! j) (other ''X'')" by simp
  qed
  with check_winner_classifies[OF v, of "''X''"] have "check_winner ?B = Inr (Some ''X'')"
    by simp
  with v f show ?thesis by simp
qed

text \<open>
  The claim as stated, with "some line filled with \<open>s\<close>" alone, fails on a board where
  both symbols fill a line: the row 3-4-5 is filled with \<open>O\<close>, yet the result is
  \<open>X\<close>, whose row 0-1-2 is declared first.
\<close>

theorem check_winner_first_line_counterexample:
  "valid_board [''X'', ''X'', ''X'', ''O'', ''O'', ''O'', '' '', '' '', '' ''] \<and>
   (3, 4, 5) \<in> set WIN_LINES \<and>
   line_filled [''X'', ''X'', ''X'', ''O'', ''O'', ''O'', '' '', '' '', '' ''] (3, 4, 5) ''O'' \<and>
   check_winner [''X'', ''X'', ''X'', ''O'', ''O'', ''O'', '' '', '' '', '' ''] = Inr (Some ''X'') \<and>
   check_winner [''X'', ''X'', ''X'', ''O'', ''O'', ''O'', '' '', '' '', '' ''] \<noteq> Inr (Some ''O'')"
  by (simp add: valid_board_def check_winner_def WIN_LINES_def line_won_def getitem_def line_filled_def)


text \<open>
  Claim C6 (scenario: immediate win). On the board \<open>[X,X,_,O,O,_,_,_,_]\<close> with the AI
  playing \<open>X\<close>, the loop of \<open>best_move_for_ai\<close> ends with best score +1 and the
  single candidate 2, so the move returned is 2 whatever the random draw below 1 is.
\<close>

theorem scenario_immediate_win:
  "best_moves_loop (available_moves [''X'', ''X'', '' '', ''O'', ''O'', '' '', '' '', '' '', '' ''])
      [''X'', ''X'', '' '', ''O'', ''O'', '' '', '' '', '' '', '' ''] ''X'' NegInf []
     = Inr ((Fin 1, [2]), [''X'', ''X'', '' '', ''O'', ''O'', '' '', '' '', '' '', '' '']) \<and>
   (randbelow 1 < 1 \<longrightarrow>
    best_move_for_ai [''X'', ''X'', '' '', ''O'', ''O'', '' '', '' '', '' '', '' ''] ''X'' randbelow
      = Inr (2, [''X'', ''X'', '' '', ''O'', ''O'', '' '', '' '', '' '', '' '']))"
proof -
  have loop: "best_moves_loop (available_moves [''X'', ''X'', '' '', ''O'', ''O'', '' '', '' '', '' '', '' ''])
      [''X'', ''X'', '' '', ''O'', ''O'', '' '', '' '', '' '', '' ''] ''X'' NegInf []
     = Inr ((Fin 1, [2]), [''X'', ''X'', '' '', ''O'', ''O'', '' '', '' '', '' '', '' ''])"
    by code_simp
  then show ?thesis
    by (simp add: best_move_for_ai_def random_choice_def)
qed

theorem scenario_immediate_win_witness:
  "(\<lambda>n. 0 :: nat) 1 < 1 \<and>
   best_move_for_ai [''X'', ''X'', '' '', ''O'', ''O'', '' '', '' '', '' '', '' ''] ''X'' (\<lambda>n. 0)
      = Inr (2, [''X'', ''X'', '' '', ''O'', ''O'', '' '', '' '', '' '', '' ''])"
  using scenario_immediate_win[of "\<lambda>n. 0"] by simp

text \<open>
  Claim C8 (validation), as the code has it. On every board of at least nine cells,
  whatever strings its cells hold, \<open>check_winner\<close> is not rejected: it returns an
  outcome. On every board of nine cells that has an empty cell, whatever strings its
  cells hold, \<open>best_move_for_ai\<close> is not rejected: it returns a move, given a random
  draw in range. Nothing is said here of \<open>best_move_for_ai\<close> on boards of other
  sizes.
\<close>

theorem no_validation:
  "(9 \<le> length b \<longrightarrow> (\<exists>w. check_winner b = Inr w)) \<and>
   (length b = 9 \<and> '' '' \<in> set b \<and> (\<forall>n>0. rb n < n) \<longrightarrow>
      (\<exists>m. best_move_for_ai b ai rb = Inr (m, b)))"
  using check_winner_find[of b] best_move_for_ai_returns[of b rb ai] by auto

theorem no_validation_witness:
  "length [''Z'', ''X'', ''O'', ''O'', ''X'', ''X'', ''X'', ''O'', '' ''] = 9 \<and>
   '' '' \<in> set [''Z'', ''X'', ''O'', ''O'', ''X'', ''X'', ''X'', ''O'', '' ''] \<and>
   check_winner [''Z'', ''X'', ''O'', ''O'', ''X'', ''X'', ''X'', ''O'', '' ''] = Inr None \<and>
   best_move_for_ai [''Z'', ''X'', ''O'', ''O'', ''X'', ''X'', ''X'', ''O'', '' ''] ''X'' (\<lambda>n. 0)
     = Inr (8, [''Z'', ''X'', ''O'', ''O'', ''X'', ''X'', ''X'', ''O'', '' ''])"
proof -
  let ?B = "[''Z'', ''X'', ''O'', ''O'', ''X'', ''X'', ''X'', ''O'', '' '']"
  have h: "length ?B = 9 \<and> '' '' \<in> set ?B \<and> (\<forall>n>0. (\<lambda>n. 0 :: nat) n < n)" by simp
  from no_validation[of ?B "\<lambda>n. 0" "''X''"] h
  obtain m w where m: "best_move_for_ai ?B ''X'' (\<lambda>n. 0) = Inr (m, ?B)"
    and w: "check_winner ?B = Inr w" by auto
  have "best_move_for_ai ?B ''X'' (\<lambda>n. 0) = Inr (8, ?B)" by code_simp
  moreover have "check_winner ?B = Inr None" by code_simp
  ultimately show ?thesis using h m w by simp
qed

text \<open>
  The claim as stated fails: boards of three and of ten cells are accepted and a move
  returned; a board holding \<open>"Z"\<close> is classified as won by \<open>"Z"\<close>; and the
  board of seven cells below is accepted by \<open>check_winner\<close>, while
  \<open>best_move_for_ai\<close> fails on it with the \<open>IndexError\<close> of a cell read made
  during the search, not with a validation error.
\<close>

theorem no_validation_counterexample:
  "length [''X'', ''X'', '' ''] = 3 \<and>
   best_move_for_ai [''X'', ''X'', '' ''] ''X'' (\<lambda>n. 0) = Inr (2, [''X'', ''X'', '' '']) \<and>
   length [''O'', ''X'', ''O'', ''O'', ''X'', ''X'', ''X'', ''O'', '' '', ''O''] = 10 \<and>
   best_move_for_ai [''O'', ''X'', ''O'', ''O'', ''X'', ''X'', ''X'', ''O'', '' '', ''O''] ''X'' (\<lambda>n. 0)
     = Inr (8, [''O'', ''X'', ''O'', ''O'', ''X'', ''X'', ''X'', ''O'', '' '', ''O'']) \<and>
   check_winner [''Z'', ''Z'', ''Z'', '' '', '' '', '' '', '' '', '' '', '' ''] = Inr (Some ''Z'') \<and>
   check_winner [''X'', ''O'', ''X'', ''O'', '' '', '' '', '' ''] = Inr None \<and>
   best_move_for_ai [''X'', ''O'', ''X'', ''O'', '' '', '' '', '' ''] ''X'' (\<lambda>n. 0) = Inl IndexError"
  by code_simp

text \<open>
  Claim C10 (range of the result). On every board of nine cells, for every player,
  maximizing symbol, \<open>alpha\<close> and \<open>beta\<close>, \<open>minimax\<close> returns a score among
  -1, 0 and +1 (never one of the infinities it starts from); the move is \<open>None\<close>
  exactly when \<open>check_winner\<close> reports an outcome; and on a board still in progress the
  move is the index of an empty cell of that board.
\<close>

theorem minimax_score_and_move:
  assumes "length b = 9"
  shows "\<exists>s mv. minimax b p mp al be = Inr ((s, mv), b) \<and>
           s \<in> {Fin (- 1), Fin 0, Fin 1} \<and>
           (mv = None) = (check_winner b \<noteq> Inr None) \<and>
           (check_winner b = Inr None \<longrightarrow> (\<exists>m. mv = Some m \<and> m < length b \<and> b ! m = '' ''))"
proof -
  from assms have len: "9 \<le> length b" by simp
  from minimax_result_aux(1)[of b p mp al be, THEN mp, OF len] obtain s mv where
    r: "minimax b p mp al be = Inr ((s, mv), b)" "s \<in> scores"
       "winner_of b \<noteq> None \<longrightarrow> mv = None"
       "winner_of b = None \<longrightarrow> (\<exists>m. mv = Some m \<and> m < length b \<and> b ! m = '' '')"
    by (elim exE conjE)
  from len have cw: "check_winner b = Inr (winner_of b)" by (rule check_winner_find)
  from r cw show ?thesis
    by (cases "winner_of b") (auto simp: scores_def)
qed

theorem minimax_score_and_move_witness:
  "length [''X'', ''X'', '' '', ''O'', ''O'', '' '', '' '', '' '', '' ''] = 9 \<and>
   minimax [''X'', ''X'', '' '', ''O'', ''O'', '' '', '' '', '' '', '' ''] ''X'' ''X'' NegInf PosInf
     = Inr ((Fin 1, Some 2), [''X'', ''X'', '' '', ''O'', ''O'', '' '', '' '', '' '', '' '']) \<and>
   check_winner [''X'', ''X'', '' '', ''O'', ''O'', '' '', '' '', '' '', '' ''] = Inr None"
proof -
  let ?B = "[''X'', ''X'', '' '', ''O'', ''O'', '' '', '' '', '' '', '' '']"
  have l: "length ?B = 9" by simp
  from minimax_score_and_move[OF l, of "''X''" "''X''" NegInf PosInf]
  obtain s mv where "minimax ?B ''X'' ''X'' NegInf PosInf = Inr ((s, mv), ?B)" by blast
  moreover have "minimax ?B ''X'' ''X'' NegInf PosInf = Inr ((Fin 1, Some 2), ?B)" by code_simp
  moreover have "check_winner ?B = Inr None"
    by (simp add: check_winner_def WIN_LINES_def line_won_def getitem_def)
  ultimately show ?thesis by simp
qed

text \<open>
  Claim C7 (termination). The recursion of \<open>minimax\<close> is well-founded at every input:
  every call lies in the accessible part of the call relation of its definition, and on a
  board of nine cells the call returns a result. The loops call \<open>minimax\<close> on the board
  with one empty cell \<open>m\<close> filled by the player, which has exactly one empty cell
  fewer. So the calls nest no deeper than the number of empty cells plus one: a run
  allowed \<open>d\<close> nested calls, with \<open>d\<close> above the number of empty cells, is the
  unbounded run. A board has no more empty cells than cells, nine here, so no depth limit
  is needed.
\<close>

theorem minimax_terminates:
  "minimax_max_loop_min_loop_dom (Inl (b, p, mp, al, be)) \<and>
   (length b = 9 \<longrightarrow> (\<exists>r. minimax b p mp al be = Inr (r, b))) \<and>
   (p \<noteq> '' '' \<and> empties b < d \<longrightarrow>
      minimax_within d b p mp al be = Some (minimax b p mp al be)) \<and>
   (m \<in> set (available_moves b) \<and> p \<noteq> '' '' \<longrightarrow> Suc (empties (b[m := p])) = empties b) \<and>
   empties b \<le> length b"
  using minimax_dom minimax_returns[of b p mp al be] within_agrees(1)[of p b mp al be]
    empties_child[of m b p] empties_le_length[of b]
  by simp

theorem minimax_terminates_witness:
  "length [''X'', ''X'', '' '', ''O'', ''O'', '' '', '' '', '' '', ''O''] = 9 \<and>
   ''X'' \<noteq> '' '' \<and>
   empties [''X'', ''X'', '' '', ''O'', ''O'', '' '', '' '', '' '', ''O''] = 4 \<and>
   minimax_within 5 [''X'', ''X'', '' '', ''O'', ''O'', '' '', '' '', '' '', ''O''] ''X'' ''X'' NegInf PosInf
     = Some (Inr ((Fin 1, Some 2), [''X'', ''X'', '' '', ''O'', ''O'', '' '', '' '', '' '', ''O''])) \<and>
   minimax_within 1 [''X'', ''X'', '' '', ''O'', ''O'', '' '', '' '', '' '', ''O''] ''X'' ''X'' NegInf PosInf
     = None \<and>
   2 \<in> set (available_moves [''X'', ''X'', '' '', ''O'', ''O'', '' '', '' '', '' '', ''O'']) \<and>
   empties ([''X'', ''X'', '' '', ''O'', ''O'', '' '', '' '', '' '', ''O''][2 := ''X'']) = 3"
proof -
  let ?B = "[''X'', ''X'', '' '', ''O'', ''O'', '' '', '' '', '' '', ''O'']"
  have h: "length ?B = 9" "2 \<in> set (available_moves ?B)" "''X'' \<noteq> '' ''"
    by (simp_all add: available_moves_set)
  have e: "empties ?B = 4" by (simp add: empties_def)
  have r: "minimax ?B ''X'' ''X'' NegInf PosInf = Inr ((Fin 1, Some 2), ?B)" by code_simp
  have n: "minimax_within 1 ?B ''X'' ''X'' NegInf PosInf = None" by code_simp
  from minimax_terminates[of ?B "''X''" "''X''" NegInf PosInf 5 2] h e
  have "minimax_within 5 ?B ''X'' ''X'' NegInf PosInf = Some (minimax ?B ''X'' ''X'' NegInf PosInf)"
    and "Suc (empties (?B[2 := ''X''])) = empties ?B" by simp_all
  with e h r n show ?thesis by simp
qed

text \<open>
  Claim C1 (optimality). On every game board still in progress, and for every symbol the
  AI plays, \<open>best_move_for_ai\<close> returns an empty cell whose successor position has the
  game-theoretic value of the board for that symbol: the move is a best move of exhaustive
  minimax, whatever the random draw. The empty board has value 0 for \<open>X\<close>, who moves
  first. So every game from the empty board in which \<open>X\<close> is played by
  \<open>best_move_for_ai\<close> ends without a win of \<open>O\<close>, whatever \<open>O\<close> plays; every
  game in which both symbols are played by \<open>best_move_for_ai\<close> ends in a draw; and such
  games exist.
\<close>

theorem best_move_optimal:
  "(valid_board b \<and> check_winner b = Inr None \<and> (\<forall>n>0. randbelow n < n) \<longrightarrow>
      (\<exists>m. best_move_for_ai b ai randbelow = Inr (m, b) \<and> m \<in> set (available_moves b) \<and>
           game_value (b[m := ai]) (other ai) ai = game_value b ai ai)) \<and>
   game_value fresh_board ''X'' ''X'' = Fin 0 \<and>
   (\<exists>w. ai_game {''X''} fresh_board ''X'' w) \<and>
   (\<forall>w. ai_game {''X''} fresh_board ''X'' w \<longrightarrow> w \<noteq> ''O'') \<and>
   (\<exists>w. ai_game {''X'', ''O''} fresh_board ''X'' w) \<and>
   (\<forall>w. ai_game {''X'', ''O''} fresh_board ''X'' w \<longrightarrow> w = ''D'')"
proof (intro conjI impI allI)
  assume h: "valid_board b \<and> check_winner b = Inr None \<and> (\<forall>n>0. randbelow n < n)"
  then have v: "valid_board b" and cw: "check_winner b = Inr None"
    and rb: "\<forall>n>0. randbelow n < n" by auto
  from v cw have "winner_of b = None" by (rule valid_winner)
  then have "'' '' \<in> set b" by (rule winner_of_None_empty)
  from best_move_for_ai_returns[OF valid_len[OF v] this rb, of ai]
  obtain m where r: "best_move_for_ai b ai randbelow = Inr (m, b)" by auto
  from ai_move_optimal[OF v cw r] r
  show "\<exists>m. best_move_for_ai b ai randbelow = Inr (m, b) \<and> m \<in> set (available_moves b) \<and>
           game_value (b[m := ai]) (other ai) ai = game_value b ai ai" by auto
next
  show "game_value fresh_board ''X'' ''X'' = Fin 0" by (rule fresh_value)
next
  show "\<exists>w. ai_game {''X''} fresh_board ''X'' w" by (rule game_exists[OF fresh_valid]) simp
next
  fix w assume "ai_game {''X''} fresh_board ''X'' w"
  then show "w \<noteq> ''O''"
    by (rule never_loses_general) (simp_all add: fresh_valid fresh_value)
next
  show "\<exists>w. ai_game {''X'', ''O''} fresh_board ''X'' w" by (rule game_exists[OF fresh_valid]) simp
next
  fix w assume "ai_game {''X'', ''O''} fresh_board ''X'' w"
  then show "w = ''D''"
    by (rule always_draws_general) (simp_all add: fresh_valid fresh_value)
qed

theorem best_move_optimal_witness:
  "valid_board [''X'', ''X'', '' '', ''O'', ''O'', '' '', '' '', '' '', '' ''] \<and>
   check_winner [''X'', ''X'', '' '', ''O'', ''O'', '' '', '' '', '' '', '' ''] = Inr None \<and>
   best_move_for_ai [''X'', ''X'', '' '', ''O'', ''O'', '' '', '' '', '' '', '' ''] ''X'' (\<lambda>n. 0)
     = Inr (2, [''X'', ''X'', '' '', ''O'', ''O'', '' '', '' '', '' '', '' '']) \<and>
   game_value [''X'', ''X'', '' '', ''O'', ''O'', '' '', '' '', '' '', '' ''] ''X'' ''X'' = Fin 1"
proof -
  let ?B = "[''X'', ''X'', '' '', ''O'', ''O'', '' '', '' '', '' '', '' '']"
  have v: "valid_board ?B" by (simp add: valid_board_def)
  have cw: "check_winner ?B = Inr None"
    by (simp add: check_winner_def WIN_LINES_def line_won_def getitem_def)
  have rb: "\<forall>n>0. (\<lambda>n. 0 :: nat) n < n" by simp
  have e: "best_move_for_ai ?B ''X'' (\<lambda>n. 0) = Inr (2, ?B)" by code_simp
  from best_move_optimal[of ?B "\<lambda>n. 0" "''X''"] v cw rb
  obtain m where m: "best_move_for_ai ?B ''X'' (\<lambda>n. 0) = Inr (m, ?B)"
    "game_value (?B[m := ''X'']) (other ''X'') ''X'' = game_value ?B ''X'' ''X''" by blast
  from m(1) e have "m = 2" by simp
  moreover have "game_value (?B[2 := ''X'']) (other ''X'') ''X'' = Fin 1" by code_simp
  ultimately have "game_value ?B ''X'' ''X'' = Fin 1" using m(2) by simp
  with v cw e show ?thesis by simp
qed

text \<open>
  Claim C4 (ties). On a board of nine cells still in progress, the loop of
  \<open>best_move_for_ai\<close> ends with the candidate list \<open>best_moves\<close>: exactly the legal
  moves whose score from \<open>minimax\<close> is maximal among the legal moves, each once; it is
  not empty, and the value returned is the candidate at the index that the random source
  draws below the number of candidates, so every candidate corresponds to exactly one
  draw. Every legal move that keeps the game-theoretic value of the board is a candidate.
  On the empty board with the AI playing \<open>X\<close> all nine cells, the corners and the
  center among them, are candidates.
\<close>

theorem best_moves_collects_ties:
  "(length b = 9 \<and> check_winner b = Inr None \<longrightarrow>
      (\<exists>best. best_moves_loop (available_moves b) b ai NegInf [] = Inr ((best, best_moves b ai), b)) \<and>
      (\<forall>m. m \<in> set (best_moves b ai) \<longleftrightarrow>
             m \<in> set (available_moves b) \<and>
             (\<forall>m' \<in> set (available_moves b). move_score b ai m' \<le> move_score b ai m)) \<and>
      best_moves b ai \<noteq> [] \<and> distinct (best_moves b ai) \<and>
      (\<forall>m \<in> set (best_moves b ai). \<exists>!r. r < length (best_moves b ai) \<and> best_moves b ai ! r = m) \<and>
      (randbelow (length (best_moves b ai)) < length (best_moves b ai) \<longrightarrow>
         best_move_for_ai b ai randbelow
           = Inr (best_moves b ai ! randbelow (length (best_moves b ai)), b)) \<and>
      (\<forall>m \<in> set (available_moves b).
         game_value (b[m := ai]) (other ai) ai = game_value b ai ai \<longrightarrow> m \<in> set (best_moves b ai))) \<and>
   best_moves fresh_board ''X'' = [0, 1, 2, 3, 4, 5, 6, 7, 8]"
proof (intro conjI impI)
  assume h: "length b = 9 \<and> check_winner b = Inr None"
  then have len: "9 \<le> length b" and cw: "check_winner b = Inr None" by auto
  from check_winner_find[OF len] cw have w: "winner_of b = None" by simp
  note bmv = best_moves_value[OF len w, of ai]
  show "\<exists>best. best_moves_loop (available_moves b) b ai NegInf [] = Inr ((best, best_moves b ai), b)"
    by (simp add: best_moves_loop_value[OF len w] bmv)
  show "\<forall>m. m \<in> set (best_moves b ai) \<longleftrightarrow>
             m \<in> set (available_moves b) \<and>
             (\<forall>m' \<in> set (available_moves b). move_score b ai m' \<le> move_score b ai m)"
    using best_moves_maximal[OF len w] by blast
  show "best_moves b ai \<noteq> []" by (rule best_moves_nonempty[OF len w])
  show d: "distinct (best_moves b ai)"
    unfolding bmv by (rule distinct_filter[OF available_moves_distinct])
  show "\<forall>m \<in> set (best_moves b ai). \<exists>!r. r < length (best_moves b ai) \<and> best_moves b ai ! r = m"
    using distinct_Ex1[OF d] by blast
  show "best_move_for_ai b ai randbelow
           = Inr (best_moves b ai ! randbelow (length (best_moves b ai)), b)"
    if "randbelow (length (best_moves b ai)) < length (best_moves b ai)"
    using that by (rule best_move_for_ai_choice[OF len w])
  show "\<forall>m \<in> set (available_moves b).
         game_value (b[m := ai]) (other ai) ai = game_value b ai ai \<longrightarrow> m \<in> set (best_moves b ai)"
    by (simp add: bmv)
next
  show "best_moves fresh_board ''X'' = [0, 1, 2, 3, 4, 5, 6, 7, 8]" by (rule fresh_best_moves)
qed

theorem best_moves_collects_ties_witness:
  "length ['' '', '' '', '' '', ''X'', ''X'', ''O'', ''X'', ''O'', ''O''] = 9 \<and>
   check_winner ['' '', '' '', '' '', ''X'', ''X'', ''O'', ''X'', ''O'', ''O''] = Inr None \<and>
   best_moves ['' '', '' '', '' '', ''X'', ''X'', ''O'', ''X'', ''O'', ''O''] ''X'' = [0, 2] \<and>
   best_move_for_ai ['' '', '' '', '' '', ''X'', ''X'', ''O'', ''X'', ''O'', ''O''] ''X'' (\<lambda>n. 1)
     = Inr (2, ['' '', '' '', '' '', ''X'', ''X'', ''O'', ''X'', ''O'', ''O''])"
proof -
  let ?B = "['' '', '' '', '' '', ''X'', ''X'', ''O'', ''X'', ''O'', ''O'']"
  have l: "length ?B = 9" by simp
  have cw: "check_winner ?B = Inr None"
    by (simp add: check_winner_def WIN_LINES_def line_won_def getitem_def)
  have loop: "best_moves_loop (available_moves ?B) ?B ''X'' NegInf [] = Inr ((Fin 1, [0, 2]), ?B)"
    by code_simp
  then have bm: "best_moves ?B ''X'' = [0, 2]" by (simp add: best_moves_def)
  from best_moves_collects_ties[of ?B "''X''" "\<lambda>n. 1"] l cw
  have "(\<lambda>n. 1 :: nat) (length (best_moves ?B ''X'')) < length (best_moves ?B ''X'') \<longrightarrow>
         best_move_for_ai ?B ''X'' (\<lambda>n. 1)
           = Inr (best_moves ?B ''X'' ! (\<lambda>n. 1 :: nat) (length (best_moves ?B ''X'')), ?B)"
    by blast
  with bm have "best_move_for_ai ?B ''X'' (\<lambda>n. 1) = Inr (2, ?B)" by simp
  with l cw bm show ?thesis by simp
qed

end
